theory Spec2Isabelle
  imports Complex_Main
begin

section \<open>The drag-and-drop controller of src/lib/utils/dnd.ts\<close>

text \<open>
  The controller \<open>dragDrop(node, options)\<close> keeps its session in closure variables and
  uses the child order of the container \<open>node\<close> as the current order of the list. The
  embedding passes the closure variables, the fragment of the document the controller
  reads and writes, and the log of \<open>options.onDrop\<close> calls around as one record.

  Coordinates are JavaScript numbers; they are modelled as reals, so the arithmetic of
  the source (\<open>Math.abs\<close>, \<open>Math.max\<close>, \<open>* 1.5\<close>, \<open>* 0.7\<close>, \<open>/ 2\<close>) is exact.
  \<open>Date.now()\<close> is an integer number of milliseconds. Pointer capture,
  \<open>preventDefault\<close>, \<open>stopPropagation\<close> and the styling of the ghost are effects on
  the browser that no decision of the controller reads; they are left out. So are
  \<open>setupListeners\<close> and the mutation observer, which put \<open>handlePointerDown\<close> on the
  draggable children and set their cursor: a pointer-down of the model is one that
  reaches \<open>handlePointerDown\<close>.
\<close>

subsection \<open>Nodes and child lists\<close>

text \<open>
  \<open>Item k\<close> is an element carrying the attribute \<open>data-draggable\<close>, \<open>Other k\<close> any
  other node (a text node, an element without the attribute), \<open>Placeholder k\<close> a
  \<open>div\<close> made by \<open>createPlaceholder\<close> (it carries \<open>data-placeholder\<close> only) and
  \<open>Ghost k\<close> a clone made by \<open>createGhost\<close> (a deep clone of an item, so it carries
  \<open>data-draggable\<close> too). The number is the identity of the node.
\<close>

datatype node = Item nat | Other nat | Placeholder nat | Ghost nat

fun hasDraggable :: "node \<Rightarrow> bool" where
  "hasDraggable (Item k) = True"
| "hasDraggable (Ghost k) = True"
| "hasDraggable (Other k) = False"
| "hasDraggable (Placeholder k) = False"

fun isGhost :: "node \<Rightarrow> bool" where
  "isGhost (Ghost k) = True"
| "isGhost n = False"

fun isPlaceholder :: "node \<Rightarrow> bool" where
  "isPlaceholder (Placeholder k) = True"
| "isPlaceholder n = False"

text \<open>\<open>Array.prototype.indexOf\<close>: the first position of the element, or -1.\<close>

definition indexOf :: "'a \<Rightarrow> 'a list \<Rightarrow> int" where
  "indexOf x xs =
     (if x \<in> set xs then int (length (takeWhile (\<lambda>y. y \<noteq> x) xs)) else - 1)"

text \<open>\<open>n.nextSibling\<close> in the child list \<open>cs\<close>; \<open>None\<close> is \<open>null\<close>.\<close>

definition nextSibling :: "node \<Rightarrow> node list \<Rightarrow> node option" where
  "nextSibling n cs =
     (case dropWhile (\<lambda>c. c \<noteq> n) cs of
        [] \<Rightarrow> None
      | _ # rest \<Rightarrow> (case rest of [] \<Rightarrow> None | r # _ \<Rightarrow> Some r))"

fun insertAt :: "node \<Rightarrow> node \<Rightarrow> node list \<Rightarrow> node list" where
  "insertAt n r [] = []"
| "insertAt n r (c # cs) = (if c = r then n # c # cs else c # insertAt n r cs)"

text \<open>
  \<open>parent.insertBefore(n, ref)\<close> on the child list of \<open>parent\<close>. With \<open>ref = null\<close>
  the node is appended. The DOM first replaces a reference child that is the node
  itself by the node's next sibling, which leaves the order as it is, and moves a
  node that is already a child (it is removed, then inserted). A reference that is
  not a child raises \<open>NotFoundError\<close> in the DOM; the controller only passes
  references it has just read from the same child list (\<open>nextSibling_in_set\<close>,
  \<open>getDraggableItems_subset\<close> below), and the model leaves the list unchanged there.
\<close>

definition dom_insertBefore :: "node \<Rightarrow> node option \<Rightarrow> node list \<Rightarrow> node list" where
  "dom_insertBefore n ref cs =
     (case ref of
        None \<Rightarrow> removeAll n cs @ [n]
      | Some r \<Rightarrow>
          if r \<notin> set cs \<or> r = n then cs
          else insertAt n r (removeAll n cs))"

definition dom_appendChild :: "node \<Rightarrow> node list \<Rightarrow> node list" where
  "dom_appendChild n cs = removeAll n cs @ [n]"

subsection \<open>Elements seen through an event\<close>

record rect =
  r_top :: real
  r_left :: real
  r_width :: real
  r_height :: real

definition r_right :: "rect \<Rightarrow> real" where
  "r_right r = r_left r + r_width r"

definition r_bottom :: "rect \<Rightarrow> real" where
  "r_bottom r = r_top r + r_height r"

text \<open>
  What the handlers read of an element on the path from an event target to the root:
  which node it is, its tag and \<open>role\<close> attribute, its classes, whether it matches the
  selector \<open>options.handle\<close>, its scroll and client sizes and its bounding box.
\<close>

record elem =
  e_node :: node
  e_tag :: string
  e_role :: string
  e_classes :: "string list"
  e_matchesHandle :: bool
  e_scrollHeight :: real
  e_clientHeight :: real
  e_scrollWidth :: real
  e_clientWidth :: real
  e_rect :: rect

text \<open>
  \<open>target.closest(sel)\<close> on the path \<open>target, parent, ...\<close>: the rest of the path from
  the first element that matches on; \<open>[]\<close> is \<open>null\<close>. Two results on one path are the
  same element exactly when they are the same rest of the path.
\<close>

definition closest :: "(elem \<Rightarrow> bool) \<Rightarrow> elem list \<Rightarrow> elem list" where
  "closest sel path = dropWhile (\<lambda>e. \<not> sel e) path"

text \<open>The selector \<open>button, input, select, textarea, a, [role="button"]\<close>.\<close>

definition isInteractive :: "elem \<Rightarrow> bool" where
  "isInteractive e \<longleftrightarrow>
     e_tag e = ''button'' \<or> e_tag e = ''input'' \<or> e_tag e = ''select'' \<or>
     e_tag e = ''textarea'' \<or> e_tag e = ''a'' \<or> e_role e = ''button''"

text \<open>The selector \<open>[data-draggable]\<close>.\<close>

definition isDraggableElem :: "elem \<Rightarrow> bool" where
  "isDraggableElem e \<longleftrightarrow> hasDraggable (e_node e)"

text \<open>The selector \<open>.categories-list, .spots-list, .tags-list, .tags-list-modal\<close>.\<close>

definition isListContainer :: "elem \<Rightarrow> bool" where
  "isListContainer e \<longleftrightarrow>
     ''categories-list'' \<in> set (e_classes e) \<or> ''spots-list'' \<in> set (e_classes e) \<or>
     ''tags-list'' \<in> set (e_classes e) \<or> ''tags-list-modal'' \<in> set (e_classes e)"

subsection \<open>The state of the controller\<close>

text \<open>The inline style properties of an item that the controller writes.\<close>

record css =
  opacity :: string
  transition :: string
  pointerEvents :: string

record pending =
  p_item :: node
  p_startY :: real
  p_startX :: real
  p_offsetY :: real
  p_offsetX :: real

text \<open>
  The variables captured by the closures \<open>handleMove\<close> and \<open>handleUp\<close> that one call of
  \<open>handlePointerDown\<close> creates; \<open>g_id\<close> tells the closures of different calls apart.
\<close>

record gesture =
  g_id :: nat
  g_isTouch :: bool
  g_isScrollable :: bool
  g_dragThreshold :: real
  g_startTime :: int

datatype listener =
  HandleMove gesture | HandleUp gesture | HandlePointerMove | HandlePointerUp

record state =
  children :: "node list"
  body :: "node list"
  styles :: "node \<Rightarrow> css"
  classDragging :: "node \<Rightarrow> bool"
  bodyUserSelect :: string
  bodyCursor :: string
  moveListeners :: "listener list"
  upListeners :: "listener list"
  cancelListeners :: "listener list"
  disabled :: bool
  handle :: bool
  drops :: "(int \<times> int) list"
  nextId :: nat
  draggedElement :: "node option"
  draggedIndex :: int
  ghostElement :: "node option"
  placeholder :: "node option"
  startY :: real
  startX :: real
  currentY :: real
  currentX :: real
  offsetY :: real
  offsetX :: real
  isDragging :: bool
  animationFrameId :: "(real \<times> real) option"
  hasMoved :: bool
  pendingDrag :: "pending option"
  isHorizontalLayout :: bool

text \<open>
  \<open>children\<close> is the child list of the container, \<open>body\<close> the nodes the controller has
  appended to \<open>document.body\<close> (the container is taken to be another element than
  \<open>document.body\<close>). \<open>classDragging n\<close> says whether \<open>n\<close> has the class \<open>dragging\<close>.
  The three listener lists are the listeners of the controller on \<open>document\<close> for
  \<open>pointermove\<close>, \<open>pointerup\<close> and \<open>pointercancel\<close>, in the order of registration.
  \<open>disabled\<close> and \<open>handle\<close> are \<open>options.disabled\<close> and whether \<open>options.handle\<close> is
  set; \<open>drops\<close> lists the calls of \<open>options.onDrop\<close>, oldest first. \<open>animationFrameId\<close>
  holds the coordinates captured by the frame callback that is scheduled, if any.
\<close>

definition getDraggableItems :: "state \<Rightarrow> node list" where
  "getDraggableItems s = filter hasDraggable (children s)"

text \<open>
  \<open>document.addEventListener\<close> does not register the same callback twice;
  \<open>removeEventListener\<close> takes it off the list.
\<close>

definition addListener :: "listener \<Rightarrow> listener list \<Rightarrow> listener list" where
  "addListener l ls = (if l \<in> set ls then ls else ls @ [l])"

definition removeListener :: "listener \<Rightarrow> listener list \<Rightarrow> listener list" where
  "removeListener l ls = removeAll l ls"

subsection \<open>cleanup, handlePointerUp, update, destroy\<close>

definition cleanup :: "state \<Rightarrow> state" where
  "cleanup s =
     (let s1 = s\<lparr>pendingDrag := None\<rparr>;
          s2 = (case ghostElement s1 of
                  Some g \<Rightarrow> s1\<lparr>body := removeAll g (body s1), ghostElement := None\<rparr>
                | None \<Rightarrow> s1);
          s3 = (case placeholder s2 of
                  Some p \<Rightarrow> s2\<lparr>children := removeAll p (children s2), placeholder := None\<rparr>
                | None \<Rightarrow> s2);
          s4 = (case draggedElement s3 of
                  Some d \<Rightarrow>
                    s3\<lparr>styles := (styles s3)
                          (d := \<lparr>opacity = '''', transition = '''', pointerEvents = ''''\<rparr>),
                       classDragging := (classDragging s3)(d := False),
                       draggedElement := None\<rparr>
                | None \<Rightarrow> s3)
      in s4\<lparr>isDragging := False, draggedIndex := - 1, hasMoved := False\<rparr>)"

definition handlePointerUp :: "state \<Rightarrow> state" where
  "handlePointerUp s =
     (if \<not> isDragging s then s
      else
        let s1 = s\<lparr>animationFrameId := None\<rparr>;
            items = getDraggableItems s1;
            finalIndex = (case draggedElement s1 of
                            Some d \<Rightarrow> indexOf d items
                          | None \<Rightarrow> - 1);
            s2 = (if draggedElement s1 \<noteq> None \<and> finalIndex \<noteq> - 1
                     \<and> finalIndex \<noteq> draggedIndex s1
                  then s1\<lparr>drops := drops s1 @ [(draggedIndex s1, finalIndex)]\<rparr>
                  else s1);
            s3 = cleanup s2
        in s3\<lparr>moveListeners := removeListener HandlePointerMove (moveListeners s3),
              upListeners := removeListener HandlePointerUp (upListeners s3),
              cancelListeners := removeListener HandlePointerUp (cancelListeners s3),
              bodyUserSelect := '''',
              bodyCursor := ''''\<rparr>)"

text \<open>
  \<open>update(newOptions)\<close>: the two arguments are \<open>newOptions.disabled\<close> and whether
  \<open>newOptions.handle\<close> is set.
\<close>

definition update :: "bool \<Rightarrow> bool \<Rightarrow> state \<Rightarrow> state" where
  "update newDisabled newHandle s =
     (let s1 = s\<lparr>disabled := newDisabled, handle := newHandle\<rparr>
      in if newDisabled \<and> isDragging s1 then cleanup s1 else s1)"

text \<open>
  \<open>destroy()\<close>, as far as the state of the model goes: \<open>cleanup\<close>, then the three
  listeners of a session are taken off \<open>document\<close>.
\<close>

definition destroy :: "state \<Rightarrow> state" where
  "destroy s =
     (let s1 = cleanup s
      in s1\<lparr>moveListeners := removeListener HandlePointerMove (moveListeners s1),
            upListeners := removeListener HandlePointerUp (upListeners s1),
            cancelListeners := removeListener HandlePointerUp (cancelListeners s1)\<rparr>)"

subsection \<open>startDrag\<close>

text \<open>
  \<open>createGhost\<close> appends a new clone to \<open>document.body\<close>; \<open>createPlaceholder\<close> makes a
  new detached \<open>div\<close>, which \<open>startDrag\<close> inserts after the item. The item is a child of
  the container when its index is not -1, so \<open>item.parentElement\<close> is the container.
\<close>

definition startDrag :: "node \<Rightarrow> state \<Rightarrow> state" where
  "startDrag item s =
     (if isDragging s then s
      else
        let s1 = s\<lparr>isDragging := True, draggedElement := Some item\<rparr>;
            items = getDraggableItems s1;
            s2 = s1\<lparr>draggedIndex := indexOf item items\<rparr>
        in if draggedIndex s2 = - 1
           then s2\<lparr>isDragging := False, draggedElement := None\<rparr>
           else
             let ghost = Ghost (nextId s2);
                 ph = Placeholder (Suc (nextId s2))
             in s2\<lparr>ghostElement := Some ghost,
                   body := body s2 @ [ghost],
                   placeholder := Some ph,
                   children := dom_insertBefore ph (nextSibling item (children s2)) (children s2),
                   styles := (styles s2)
                     (item := \<lparr>opacity = ''0.3'', transition = ''none'', pointerEvents = ''none''\<rparr>),
                   classDragging := (classDragging s2)(item := True),
                   moveListeners := addListener HandlePointerMove (moveListeners s2),
                   upListeners := addListener HandlePointerUp (upListeners s2),
                   cancelListeners := addListener HandlePointerUp (cancelListeners s2),
                   bodyUserSelect := ''none'',
                   bodyCursor := ''grabbing'',
                   nextId := Suc (Suc (nextId s2))\<rparr>)"

subsection \<open>handlePointerDown and its closures\<close>

record pointerDown =
  pd_path :: "elem list"
  pd_touch :: bool
  pd_ontouchstart :: bool
  pd_clientX :: real
  pd_clientY :: real
  pd_now :: int

text \<open>
  \<open>pd_path\<close> is \<open>e.target\<close> followed by its ancestors, \<open>pd_touch\<close> is
  \<open>e.pointerType === 'touch'\<close>, \<open>pd_ontouchstart\<close> is \<open>'ontouchstart' in window\<close> and
  \<open>pd_now\<close> what \<open>Date.now()\<close> returns in the handler.
\<close>

record pointerMove =
  pm_clientX :: real
  pm_clientY :: real
  pm_now :: int

definition isTouchOf :: "pointerDown \<Rightarrow> bool" where
  "isTouchOf e \<longleftrightarrow> pd_touch e \<or> pd_ontouchstart e"

definition isScrollableOf :: "elem list \<Rightarrow> bool" where
  "isScrollableOf itemPath =
     (case closest isListContainer itemPath of
        [] \<Rightarrow> False
      | parentContainer # _ \<Rightarrow>
          e_scrollHeight parentContainer > e_clientHeight parentContainer \<or>
          e_scrollWidth parentContainer > e_clientWidth parentContainer)"

definition dragThresholdOf :: "bool \<Rightarrow> bool \<Rightarrow> real" where
  "dragThresholdOf isTouch isScrollable = (if isTouch then (if isScrollable then 30 else 20) else 8)"

definition handlePointerDown :: "pointerDown \<Rightarrow> state \<Rightarrow> state" where
  "handlePointerDown e s =
     (if disabled s \<or> isDragging s then s
      else
        let target = pd_path e;
            interactiveElement = closest isInteractive target;
            itemPath = closest isDraggableElem target
        in if interactiveElement \<noteq> [] \<and> interactiveElement \<noteq> itemPath then s
           else if handle s \<and> closest e_matchesHandle target = [] then s
           else
             (case itemPath of
                [] \<Rightarrow> s
              | item # _ \<Rightarrow>
                  let isTouch = isTouchOf e;
                      isScrollable = isScrollableOf itemPath;
                      r = e_rect item;
                      oY = pd_clientY e - r_top r;
                      oX = pd_clientX e - r_left r;
                      g = \<lparr>g_id = nextId s, g_isTouch = isTouch, g_isScrollable = isScrollable,
                           g_dragThreshold = dragThresholdOf isTouch isScrollable,
                           g_startTime = pd_now e\<rparr>
                  in s\<lparr>startY := pd_clientY e,
                        startX := pd_clientX e,
                        offsetY := oY,
                        offsetX := oX,
                        hasMoved := False,
                        pendingDrag := Some \<lparr>p_item = e_node item, p_startY = pd_clientY e,
                                              p_startX = pd_clientX e, p_offsetY = oY,
                                              p_offsetX = oX\<rparr>,
                        moveListeners := addListener (HandleMove g) (moveListeners s),
                        upListeners := addListener (HandleUp g) (upListeners s),
                        nextId := Suc (nextId s)\<rparr>))"

definition promote :: "gesture \<Rightarrow> pending \<Rightarrow> state \<Rightarrow> state" where
  "promote g pd s =
     (let s1 = s\<lparr>hasMoved := True\<rparr>;
          s2 = startDrag (p_item pd) s1
      in s2\<lparr>pendingDrag := None,
            moveListeners := removeListener (HandleMove g) (moveListeners s2),
            upListeners := removeListener (HandleUp g) (upListeners s2)\<rparr>)"

definition handleMove :: "gesture \<Rightarrow> pointerMove \<Rightarrow> state \<Rightarrow> state" where
  "handleMove g moveEvent s =
     (case pendingDrag s of
        None \<Rightarrow> s
      | Some pd \<Rightarrow>
          let moveDistanceY = \<bar>pm_clientY moveEvent - p_startY pd\<bar>;
              moveDistanceX = \<bar>pm_clientX moveEvent - p_startX pd\<bar>;
              moveDistance = max moveDistanceY moveDistanceX;
              elapsedTime = pm_now moveEvent - g_startTime g
          in if g_isTouch g \<and> g_isScrollable g
             then
               if moveDistanceY > moveDistanceX * 1.5
               then s\<lparr>pendingDrag := None,
                      moveListeners := removeListener (HandleMove g) (moveListeners s),
                      upListeners := removeListener (HandleUp g) (upListeners s)\<rparr>
               else if moveDistance < g_dragThreshold g
                       \<or> (moveDistance < g_dragThreshold g * 0.7 \<and> elapsedTime < 200)
               then s
               else promote g pd s
             else
               if moveDistance < g_dragThreshold g then s
               else promote g pd s)"

definition handleUp :: "gesture \<Rightarrow> state \<Rightarrow> state" where
  "handleUp g s =
     s\<lparr>pendingDrag := None,
       moveListeners := removeListener (HandleMove g) (moveListeners s),
       upListeners := removeListener (HandleUp g) (upListeners s)\<rparr>"

subsection \<open>handlePointerMove and updateDragPosition\<close>

text \<open>
  \<open>handlePointerMove\<close> cancels the frame callback that is scheduled and schedules one
  that captures the coordinates of this event.
\<close>

definition handlePointerMove :: "pointerMove \<Rightarrow> state \<Rightarrow> state" where
  "handlePointerMove e s =
     (if \<not> isDragging s \<or> draggedElement s = None then s
      else s\<lparr>animationFrameId := Some (pm_clientX e, pm_clientY e)\<rparr>)"

text \<open>
  What the browser answers when the frame callback runs: the computed style of the
  container, the element \<open>document.elementFromPoint(x, y)\<close> with its ancestors (\<open>[]\<close>
  when there is none; the ghost is hidden while it is looked up), and the bounding
  boxes.
\<close>

record frame =
  f_flexWrap :: string
  f_display :: string
  f_flexDirection :: string
  f_hit :: "elem list"
  f_rect :: "node \<Rightarrow> rect"

definition getElementUnderPoint :: "frame \<Rightarrow> node option" where
  "getElementUnderPoint f =
     (case closest isDraggableElem (f_hit f) of [] \<Rightarrow> None | e # _ \<Rightarrow> Some (e_node e))"

definition layoutHorizontal :: "frame \<Rightarrow> bool" where
  "layoutHorizontal f =
     (let isFlexWrap = (f_flexWrap f \<noteq> ''nowrap'' \<or> f_display f = ''flex'');
          isHorizontal = (f_flexDirection f = ''row'' \<or> f_flexDirection f = ''row-reverse'')
      in isFlexWrap \<and> isHorizontal)"

text \<open>
  The local variable \<open>insertBefore\<close> of the branch for a hovered item: the hovered item
  when the pointer is before its middle, else its next sibling.
\<close>

definition insertBeforeOf :: "frame \<Rightarrow> bool \<Rightarrow> real \<Rightarrow> real \<Rightarrow> node \<Rightarrow> node list \<Rightarrow> node option" where
  "insertBeforeOf f horizontal x y hoveredElement cs =
     (let hoveredRect = f_rect f hoveredElement
      in if horizontal
         then (let hoveredMiddle = r_left hoveredRect + r_width hoveredRect / 2
               in if x < hoveredMiddle then Some hoveredElement
                  else nextSibling hoveredElement cs)
         else (let hoveredMiddle = r_top hoveredRect + r_height hoveredRect / 2
               in if y < hoveredMiddle then Some hoveredElement
                  else nextSibling hoveredElement cs))"

text \<open>The child list after the branch for a hovered item \<open>h\<close> (dragged \<open>d\<close>, placeholder \<open>p\<close>).\<close>

definition hoverReorder :: "frame \<Rightarrow> bool \<Rightarrow> real \<Rightarrow> real \<Rightarrow> node \<Rightarrow> node \<Rightarrow> node \<Rightarrow> node list \<Rightarrow> node list" where
  "hoverReorder f horizontal x y d p h cs =
     (let items = filter hasDraggable cs;
          hoveredIndex = indexOf h items;
          currentDraggedIndex = indexOf d items
      in if hoveredIndex \<noteq> - 1 \<and> currentDraggedIndex \<noteq> - 1 \<and> hoveredIndex \<noteq> currentDraggedIndex
         then
           let cs1 = (case insertBeforeOf f horizontal x y h cs of
                        Some r \<Rightarrow> if r \<noteq> d then dom_insertBefore d (Some r) cs else cs
                      | None \<Rightarrow> dom_appendChild d cs)
           in if p \<in> set cs1 \<and> nextSibling d cs1 \<noteq> Some p
              then dom_insertBefore p (nextSibling d cs1) cs1
              else cs1
         else cs)"

text \<open>The child list after the branch for no hovered item.\<close>

definition edgeReorder :: "frame \<Rightarrow> bool \<Rightarrow> real \<Rightarrow> real \<Rightarrow> node \<Rightarrow> node \<Rightarrow> node list \<Rightarrow> node list" where
  "edgeReorder f horizontal x y d p cs =
     (let items = filter hasDraggable cs
      in if length items > 0
         then
           let firstItem = hd items;
               lastItem = last items;
               firstRect = f_rect f firstItem;
               lastRect = f_rect f lastItem;
               toFront = (let cs1 = dom_insertBefore d (Some firstItem) cs
                          in dom_insertBefore p (nextSibling d cs1) cs1);
               toEnd = (let cs1 = dom_appendChild d cs
                        in dom_insertBefore p (nextSibling d cs1) cs1)
           in if horizontal
              then (if x < r_left firstRect then toFront
                    else if x > r_right lastRect then toEnd
                    else cs)
              else (if y < r_top firstRect then toFront
                    else if y > r_bottom lastRect then toEnd
                    else cs)
         else cs)"

definition updateDragPosition :: "frame \<Rightarrow> real \<Rightarrow> real \<Rightarrow> state \<Rightarrow> state" where
  "updateDragPosition f x y s =
     (case (ghostElement s, draggedElement s, placeholder s) of
        (Some g, Some d, Some p) \<Rightarrow>
          let s1 = s\<lparr>currentY := y, currentX := x, isHorizontalLayout := layoutHorizontal f\<rparr>
          in (case getElementUnderPoint f of
                Some h \<Rightarrow>
                  if h \<noteq> d \<and> h \<noteq> p
                  then s1\<lparr>children := hoverReorder f (isHorizontalLayout s1) x y d p h (children s1)\<rparr>
                  else s1
              | None \<Rightarrow>
                  s1\<lparr>children := edgeReorder f (isHorizontalLayout s1) x y d p (children s1)\<rparr>)
      | _ \<Rightarrow> s)"

subsection \<open>Events\<close>

text \<open>
  A \<open>pointermove\<close>, \<open>pointerup\<close> or \<open>pointercancel\<close> on \<open>document\<close> runs the listeners that
  were registered when the dispatch began, in order, skipping one that has been
  removed meanwhile; a listener added meanwhile does not run.
\<close>

fun runMoveListener :: "listener \<Rightarrow> pointerMove \<Rightarrow> state \<Rightarrow> state" where
  "runMoveListener (HandleMove g) e s = handleMove g e s"
| "runMoveListener HandlePointerMove e s = handlePointerMove e s"
| "runMoveListener l e s = s"

fun runUpListener :: "listener \<Rightarrow> state \<Rightarrow> state" where
  "runUpListener (HandleUp g) s = handleUp g s"
| "runUpListener HandlePointerUp s = handlePointerUp s"
| "runUpListener l s = s"

definition dispatchMove :: "pointerMove \<Rightarrow> state \<Rightarrow> state" where
  "dispatchMove e s =
     foldl (\<lambda>st l. if l \<in> set (moveListeners st) then runMoveListener l e st else st)
       s (moveListeners s)"

definition dispatchUp :: "state \<Rightarrow> state" where
  "dispatchUp s =
     foldl (\<lambda>st l. if l \<in> set (upListeners st) then runUpListener l st else st)
       s (upListeners s)"

definition dispatchCancel :: "state \<Rightarrow> state" where
  "dispatchCancel s =
     foldl (\<lambda>st l. if l \<in> set (cancelListeners st) then runUpListener l st else st)
       s (cancelListeners s)"

text \<open>
  An animation frame runs the callback that \<open>handlePointerMove\<close> has scheduled, if there
  is one: \<open>updateDragPosition\<close> at the captured coordinates, then
  \<open>animationFrameId = null\<close>.
\<close>

definition runFrame :: "frame \<Rightarrow> state \<Rightarrow> state" where
  "runFrame f s =
     (case animationFrameId s of
        None \<Rightarrow> s
      | Some (x, y) \<Rightarrow> (updateDragPosition f x y s)\<lparr>animationFrameId := None\<rparr>)"

text \<open>A caller that renders from its own data takes a row out of the container.\<close>

definition externalRemove :: "node \<Rightarrow> state \<Rightarrow> state" where
  "externalRemove n s = s\<lparr>children := removeAll n (children s)\<rparr>"

text \<open>
  What happens to the controller: a pointer-down that reaches \<open>handlePointerDown\<close>, a
  \<open>pointermove\<close>, \<open>pointerup\<close> or \<open>pointercancel\<close> on \<open>document\<close>, an animation frame, a
  call of \<open>update\<close>, and the removal of a child by the caller.
\<close>

datatype event =
  PointerDown pointerDown
| PointerMove pointerMove
| PointerUp
| PointerCancel
| AnimationFrame frame
| Update bool bool
| ExternalRemove node

fun step :: "state \<Rightarrow> event \<Rightarrow> state" where
  "step s (PointerDown e) = handlePointerDown e s"
| "step s (PointerMove e) = dispatchMove e s"
| "step s PointerUp = dispatchUp s"
| "step s PointerCancel = dispatchCancel s"
| "step s (AnimationFrame f) = runFrame f s"
| "step s (Update newDisabled newHandle) = update newDisabled newHandle s"
| "step s (ExternalRemove n) = externalRemove n s"

definition run :: "state \<Rightarrow> event list \<Rightarrow> state" where
  "run s evs = foldl step s evs"

text \<open>
  The controller as \<open>dragDrop(node, options)\<close> leaves it: no session, no listener on
  \<open>document\<close>, nothing in \<open>document.body\<close>, no call of \<open>onDrop\<close> yet.
\<close>

definition init :: "node list \<Rightarrow> (node \<Rightarrow> css) \<Rightarrow> (node \<Rightarrow> bool) \<Rightarrow> bool \<Rightarrow> bool \<Rightarrow> state" where
  "init cs sty cls dis hdl =
     \<lparr>children = cs, body = [], styles = sty, classDragging = cls,
      bodyUserSelect = '''', bodyCursor = '''',
      moveListeners = [], upListeners = [], cancelListeners = [],
      disabled = dis, handle = hdl, drops = [], nextId = 0,
      draggedElement = None, draggedIndex = - 1, ghostElement = None, placeholder = None,
      startY = 0, startX = 0, currentY = 0, currentX = 0, offsetY = 0, offsetX = 0,
      isDragging = False, animationFrameId = None, hasMoved = False, pendingDrag = None,
      isHorizontalLayout = False\<rparr>"

subsection \<open>What holds between events\<close>

text \<open>
  The child list of the container while a session with placeholder \<open>p\<close> is active:
  no node twice, no ghost, and no placeholder but \<open>p\<close> (a caller may have taken \<open>p\<close>
  out).
\<close>

definition okKids :: "node \<Rightarrow> node list \<Rightarrow> bool" where
  "okKids p cs \<longleftrightarrow>
     distinct cs \<and> (\<forall>c \<in> set cs. \<not> isGhost c) \<and>
     (filter isPlaceholder cs = [] \<or> filter isPlaceholder cs = [p])"

definition cleanKids :: "node list \<Rightarrow> bool" where
  "cleanKids cs \<longleftrightarrow> distinct cs \<and> (\<forall>c \<in> set cs. \<not> isGhost c \<and> \<not> isPlaceholder c)"

text \<open>
  The invariant of the controller. While a session is active it owns one ghost, which
  is all the controller has in \<open>document.body\<close>, one placeholder and the dragged item,
  and its three listeners are on \<open>document\<close>; otherwise it owns nothing and the
  container holds neither ghost nor placeholder.
\<close>

definition sessionInv :: "state \<Rightarrow> bool" where
  "sessionInv s \<longleftrightarrow>
     (if isDragging s
      then (case ghostElement s of
              None \<Rightarrow> False
            | Some g \<Rightarrow>
                (case placeholder s of
                   None \<Rightarrow> False
                 | Some p \<Rightarrow>
                     (case draggedElement s of
                        None \<Rightarrow> False
                      | Some d \<Rightarrow>
                          isGhost g \<and> isPlaceholder p \<and> hasDraggable d \<and> \<not> isGhost d
                          \<and> body s = [g] \<and> okKids p (children s))))
           \<and> HandlePointerMove \<in> set (moveListeners s)
           \<and> HandlePointerUp \<in> set (upListeners s)
           \<and> HandlePointerUp \<in> set (cancelListeners s)
      else ghostElement s = None \<and> placeholder s = None \<and> draggedElement s = None
           \<and> body s = [] \<and> cleanKids (children s))"

text \<open>
  \<open>inSession s0 s\<close>: \<open>s\<close> is the active session of \<open>s0\<close>, up to pending gestures and their
  listeners. \<open>sessionEnded s0 s'\<close>: in \<open>s'\<close> the session of \<open>s0\<close> has been ended the way
  \<open>handlePointerUp\<close> ends it.
\<close>

definition inSession :: "state \<Rightarrow> state \<Rightarrow> bool" where
  "inSession s0 s \<longleftrightarrow>
     sessionInv s \<and> isDragging s0 \<and> isDragging s
     \<and> draggedElement s = draggedElement s0 \<and> draggedIndex s = draggedIndex s0
     \<and> ghostElement s = ghostElement s0 \<and> placeholder s = placeholder s0
     \<and> children s = children s0 \<and> body s = body s0 \<and> styles s = styles s0
     \<and> classDragging s = classDragging s0 \<and> drops s = drops s0"

definition sessionEnded :: "state \<Rightarrow> state \<Rightarrow> bool" where
  "sessionEnded s0 s' \<longleftrightarrow>
     sessionInv s' \<and> \<not> isDragging s'
     \<and> children s' = children (handlePointerUp s0) \<and> body s' = body (handlePointerUp s0)
     \<and> styles s' = styles (handlePointerUp s0)
     \<and> classDragging s' = classDragging (handlePointerUp s0)
     \<and> drops s' = drops (handlePointerUp s0)
     \<and> HandlePointerMove \<notin> set (moveListeners s')
     \<and> HandlePointerUp \<notin> set (upListeners s')
     \<and> HandlePointerUp \<notin> set (cancelListeners s')"

text \<open>The events that do not end a session.\<close>

fun duringDrag :: "event \<Rightarrow> bool" where
  "duringDrag PointerUp = False"
| "duringDrag PointerCancel = False"
| "duringDrag (Update newDisabled newHandle) = (\<not> newDisabled)"
| "duringDrag ev = True"

text \<open>\<open>keepsSession s0 s\<close>: the session of \<open>s0\<close> is still active in \<open>s\<close>, and no call of \<open>onDrop\<close> was made.\<close>

definition keepsSession :: "state \<Rightarrow> state \<Rightarrow> bool" where
  "keepsSession s0 s \<longleftrightarrow>
     isDragging s \<and> draggedElement s = draggedElement s0
     \<and> draggedIndex s = draggedIndex s0 \<and> drops s = drops s0"

text \<open>
  \<open>placed s\<close>: the placeholder of an active session is a placeholder node among the
  children of the container.
  \<open>leavesPlaceholder ev\<close>: the event is not the removal of a placeholder by the caller.
\<close>

definition placed :: "state \<Rightarrow> bool" where
  "placed s \<longleftrightarrow>
     (if isDragging s then placeholder s \<in> Some ` set (filter isPlaceholder (children s))
      else True)"

fun leavesPlaceholder :: "event \<Rightarrow> bool" where
  "leavesPlaceholder (ExternalRemove n) = (\<not> isPlaceholder n)"
| "leavesPlaceholder ev = True"

subsection \<open>Gestures\<close>

text \<open>
  \<open>idle\<close>: no session, no pending gesture and none of its closures on \<open>document\<close>.
  \<open>moveDistanceFrom e m\<close> is the \<open>moveDistance\<close> that \<open>handleMove\<close> computes for the move
  \<open>m\<close> of a gesture that began with \<open>e\<close>, \<open>thresholdFor e\<close> its \<open>dragThreshold\<close>, and
  \<open>verticalFrom e m\<close> the test \<open>moveDistanceY > moveDistanceX * 1.5\<close>.
\<close>

definition idle :: "state \<Rightarrow> bool" where
  "idle s \<longleftrightarrow>
     \<not> isDragging s \<and> pendingDrag s = None
     \<and> (\<forall>l \<in> set (moveListeners s). l = HandlePointerMove)
     \<and> (\<forall>l \<in> set (upListeners s). l = HandlePointerUp)"

definition moveDistanceFrom :: "pointerDown \<Rightarrow> pointerMove \<Rightarrow> real" where
  "moveDistanceFrom e m = max \<bar>pm_clientY m - pd_clientY e\<bar> \<bar>pm_clientX m - pd_clientX e\<bar>"

definition verticalFrom :: "pointerDown \<Rightarrow> pointerMove \<Rightarrow> bool" where
  "verticalFrom e m \<longleftrightarrow> \<bar>pm_clientY m - pd_clientY e\<bar> > \<bar>pm_clientX m - pd_clientX e\<bar> * 1.5"

definition isScrollableAt :: "pointerDown \<Rightarrow> bool" where
  "isScrollableAt e = isScrollableOf (closest isDraggableElem (pd_path e))"

definition thresholdFor :: "pointerDown \<Rightarrow> real" where
  "thresholdFor e = dragThresholdOf (isTouchOf e) (isScrollableAt e)"

text \<open>
  \<open>quiet thr x0 y0 D s\<close>: no session, the calls of \<open>onDrop\<close> are \<open>D\<close>, a pending gesture
  began at \<open>(x0, y0)\<close>, and every closure \<open>handleMove\<close> on \<open>document\<close> has the threshold
  \<open>thr\<close>.
\<close>

definition quiet :: "real \<Rightarrow> real \<Rightarrow> real \<Rightarrow> (int \<times> int) list \<Rightarrow> state \<Rightarrow> bool" where
  "quiet thr x0 y0 D s \<longleftrightarrow>
     \<not> isDragging s \<and> drops s = D
     \<and> (\<forall>pd. pendingDrag s = Some pd \<longrightarrow> p_startX pd = x0 \<and> p_startY pd = y0)
     \<and> (\<forall>l \<in> set (moveListeners s). \<forall>g. l = HandleMove g \<longrightarrow> g_dragThreshold g = thr)"

text \<open>The closure variables that \<open>handlePointerDown e\<close> captures in the state \<open>s\<close>.\<close>

definition gestureOf :: "pointerDown \<Rightarrow> state \<Rightarrow> gesture" where
  "gestureOf e s =
     \<lparr>g_id = nextId s, g_isTouch = isTouchOf e, g_isScrollable = isScrollableAt e,
      g_dragThreshold = thresholdFor e, g_startTime = pd_now e\<rparr>"

text \<open>
  \<open>waiting s0 e s\<close>: in \<open>s\<close> the gesture that \<open>e\<close> began in the idle state \<open>s0\<close> is pending,
  with its two closures registered after the listeners of \<open>s0\<close>.
\<close>

definition waiting :: "state \<Rightarrow> pointerDown \<Rightarrow> state \<Rightarrow> bool" where
  "waiting s0 e s \<longleftrightarrow>
     idle s0 \<and> \<not> isDragging s
     \<and> (case pendingDrag s of
           None \<Rightarrow> False
         | Some pd \<Rightarrow> p_startX pd = pd_clientX e \<and> p_startY pd = pd_clientY e)
     \<and> moveListeners s = moveListeners s0 @ [HandleMove (gestureOf e s0)]
     \<and> upListeners s = upListeners s0 @ [HandleUp (gestureOf e s0)]"

subsection \<open>The reordering in the words of the specification\<close>

text \<open>
  The pointer is on the before side of the hovered item \<open>h\<close>: left of its horizontal
  middle in a horizontal layout, above its vertical middle otherwise.
\<close>

definition beforeSide :: "frame \<Rightarrow> real \<Rightarrow> real \<Rightarrow> node \<Rightarrow> bool" where
  "beforeSide f x y h =
     (if layoutHorizontal f
      then x < r_left (f_rect f h) + r_width (f_rect f h) / 2
      else y < r_top (f_rect f h) + r_height (f_rect f h) / 2)"

text \<open>
  The dragged item \<open>d\<close> is inserted before \<open>h\<close> on the before side, before the next
  sibling of \<open>h\<close> on the after side, and appended when \<open>h\<close> has no next sibling; then the
  placeholder \<open>p\<close> is put after \<open>d\<close> unless it is there.
\<close>

definition spec_hoverReorder :: "frame \<Rightarrow> real \<Rightarrow> real \<Rightarrow> node \<Rightarrow> node \<Rightarrow> node \<Rightarrow> node list \<Rightarrow> node list" where
  "spec_hoverReorder f x y d p h cs =
     (let cs1 = (if beforeSide f x y h then dom_insertBefore d (Some h) cs
                 else (case nextSibling h cs of
                         Some n \<Rightarrow> dom_insertBefore d (Some n) cs
                       | None \<Rightarrow> dom_appendChild d cs))
      in if nextSibling d cs1 = Some p then cs1
         else dom_insertBefore p (nextSibling d cs1) cs1)"

text \<open>The first half of that alone: the dragged item is moved and no placeholder is.\<close>

definition spec_moveDragged :: "frame \<Rightarrow> real \<Rightarrow> real \<Rightarrow> node \<Rightarrow> node \<Rightarrow> node list \<Rightarrow> node list" where
  "spec_moveDragged f x y d h cs =
     (if beforeSide f x y h then dom_insertBefore d (Some h) cs
      else (case nextSibling h cs of
              Some n \<Rightarrow> dom_insertBefore d (Some n) cs
            | None \<Rightarrow> dom_appendChild d cs))"

text \<open>
  The pointer is beyond the leading edge of the first draggable item, or beyond the
  trailing edge of the last one.
\<close>

definition beyondFirst :: "frame \<Rightarrow> real \<Rightarrow> real \<Rightarrow> node list \<Rightarrow> bool" where
  "beyondFirst f x y items =
     (if layoutHorizontal f then x < r_left (f_rect f (hd items))
      else y < r_top (f_rect f (hd items)))"

definition beyondLast :: "frame \<Rightarrow> real \<Rightarrow> real \<Rightarrow> node list \<Rightarrow> bool" where
  "beyondLast f x y items =
     (if layoutHorizontal f then x > r_right (f_rect f (last items))
      else y > r_bottom (f_rect f (last items)))"

subsection \<open>Concrete inputs\<close>

text \<open>Items without inline styles, a column of boxes 50 pixels high, a plain frame.\<close>

definition noStyle :: css where
  "noStyle = \<lparr>opacity = '''', transition = '''', pointerEvents = ''''\<rparr>"

definition abc :: state where
  "abc = init [Item 0, Item 1, Item 2] (\<lambda>n. noStyle) (\<lambda>n. False) False False"

definition box :: "nat \<Rightarrow> rect" where
  "box k = \<lparr>r_top = 50 * real k, r_left = 0, r_width = 100, r_height = 50\<rparr>"

definition itemElem :: "nat \<Rightarrow> elem" where
  "itemElem k =
     \<lparr>e_node = Item k, e_tag = ''li'', e_role = [], e_classes = [], e_matchesHandle = False,
      e_scrollHeight = 50, e_clientHeight = 50, e_scrollWidth = 100, e_clientWidth = 100,
      e_rect = box k\<rparr>"

text \<open>The list element around the items, with the scroll height \<open>h\<close> in a box 150 high.\<close>

definition listElem :: "real \<Rightarrow> elem" where
  "listElem h =
     \<lparr>e_node = Other 100, e_tag = ''ul'', e_role = [], e_classes = [''spots-list''],
      e_matchesHandle = False,
      e_scrollHeight = h, e_clientHeight = 150, e_scrollWidth = 100, e_clientWidth = 100,
      e_rect = \<lparr>r_top = 0, r_left = 0, r_width = 100, r_height = 150\<rparr>\<rparr>"

text \<open>A mouse press on item \<open>k\<close>, and a finger on item \<open>k\<close> of a list that scrolls.\<close>

definition mouseDown :: "nat \<Rightarrow> pointerDown" where
  "mouseDown k =
     \<lparr>pd_path = [itemElem k, listElem 150], pd_touch = False, pd_ontouchstart = False,
      pd_clientX = 10, pd_clientY = 50 * real k + 10, pd_now = 1000\<rparr>"

definition touchDown :: "nat \<Rightarrow> pointerDown" where
  "touchDown k =
     \<lparr>pd_path = [itemElem k, listElem 500], pd_touch = True, pd_ontouchstart = True,
      pd_clientX = 10, pd_clientY = 50 * real k + 10, pd_now = 1000\<rparr>"

definition moveTo :: "real \<Rightarrow> real \<Rightarrow> int \<Rightarrow> pointerMove" where
  "moveTo x y t = \<lparr>pm_clientX = x, pm_clientY = y, pm_now = t\<rparr>"

text \<open>A frame of a vertical list in which the pointer is over no element.\<close>

definition column :: frame where
  "column =
     \<lparr>f_flexWrap = ''nowrap'', f_display = ''block'', f_flexDirection = ''row'', f_hit = [],
      f_rect = (\<lambda>n. case n of Item k \<Rightarrow> box k | _ \<Rightarrow> box 0)\<rparr>"

text \<open>A frame of the vertical list in which the pointer is over item \<open>k\<close>.\<close>

definition overItem :: "nat \<Rightarrow> frame" where
  "overItem k = column\<lparr>f_hit := [itemElem k, listElem 150]\<rparr>"

text \<open>Items that carry an inline opacity of their own before any drag.\<close>

definition dimmed :: state where
  "dimmed = init [Item 0, Item 1, Item 2]
     (\<lambda>n. \<lparr>opacity = ''0.5'', transition = [], pointerEvents = []\<rparr>) (\<lambda>n. False) False False"

text \<open>The closure variables and the pending gesture that \<open>mouseDown 1\<close> leaves in \<open>abc\<close>.\<close>

definition mouseGesture :: gesture where
  "mouseGesture =
     \<lparr>g_id = 0, g_isTouch = False, g_isScrollable = False, g_dragThreshold = 8,
      g_startTime = 1000\<rparr>"

definition pendingOne :: pending where
  "pendingOne =
     \<lparr>p_item = Item 1, p_startY = 60, p_startX = 10, p_offsetY = 10, p_offsetX = 10\<rparr>"

text \<open>An item that is itself a button, and a button inside item \<open>k\<close>.\<close>

definition buttonItem :: "nat \<Rightarrow> elem" where
  "buttonItem k = (itemElem k)\<lparr>e_tag := ''button''\<rparr>"

definition innerButton :: elem where
  "innerButton =
     \<lparr>e_node = Other 7, e_tag = ''button'', e_role = [], e_classes = [], e_matchesHandle = False,
      e_scrollHeight = 20, e_clientHeight = 20, e_scrollWidth = 40, e_clientWidth = 40,
      e_rect = \<lparr>r_top = 60, r_left = 50, r_width = 40, r_height = 20\<rparr>\<rparr>"

definition pressOn :: "elem list \<Rightarrow> pointerDown" where
  "pressOn path =
     \<lparr>pd_path = path, pd_touch = False, pd_ontouchstart = False,
      pd_clientX = 60, pd_clientY = 70, pd_now = 1000\<rparr>"

text \<open>
  A pen and a finger that go down on item \<open>k\<close> of a list that scrolls, at the time \<open>t\<close>, in
  a window without \<open>ontouchstart\<close>; the closure variables of a pen gesture that begins
  first, at 400, and of a finger gesture that begins second, at 1000.
\<close>

definition penAt :: "nat \<Rightarrow> int \<Rightarrow> pointerDown" where
  "penAt k t =
     \<lparr>pd_path = [itemElem k, listElem 500], pd_touch = False, pd_ontouchstart = False,
      pd_clientX = 10, pd_clientY = 50 * real k + 10, pd_now = t\<rparr>"

definition fingerAt :: "nat \<Rightarrow> int \<Rightarrow> pointerDown" where
  "fingerAt k t =
     \<lparr>pd_path = [itemElem k, listElem 500], pd_touch = True, pd_ontouchstart = False,
      pd_clientX = 10, pd_clientY = 50 * real k + 10, pd_now = t\<rparr>"

definition penGesture :: gesture where
  "penGesture =
     \<lparr>g_id = 0, g_isTouch = False, g_isScrollable = True, g_dragThreshold = 8,
      g_startTime = 400\<rparr>"

definition secondFinger :: gesture where
  "secondFinger =
     \<lparr>g_id = 1, g_isTouch = True, g_isScrollable = True, g_dragThreshold = 30,
      g_startTime = 1000\<rparr>"

section \<open>Properties\<close>

subsection \<open>Lists and child lists\<close>

lemma indexOf_minus1: "indexOf x xs = - 1 \<longleftrightarrow> x \<notin> set xs"
  by (simp add: indexOf_def)

lemma indexOf_nonneg: "x \<in> set xs \<Longrightarrow> 0 \<le> indexOf x xs"
  by (simp add: indexOf_def)

subsection \<open>cleanup\<close>

lemma cleanup_isDragging [simp]: "isDragging (cleanup s) = False"
  by (simp add: cleanup_def Let_def split: option.splits)

lemma cleanup_refs [simp]:
  "ghostElement (cleanup s) = None" "placeholder (cleanup s) = None"
  "draggedElement (cleanup s) = None" "pendingDrag (cleanup s) = None"
  "draggedIndex (cleanup s) = - 1"
  by (simp_all add: cleanup_def Let_def split: option.splits)

lemma cleanup_keeps [simp]:
  "drops (cleanup s) = drops s" "moveListeners (cleanup s) = moveListeners s"
  "upListeners (cleanup s) = upListeners s" "cancelListeners (cleanup s) = cancelListeners s"
  "disabled (cleanup s) = disabled s" "handle (cleanup s) = handle s"
  "nextId (cleanup s) = nextId s" "animationFrameId (cleanup s) = animationFrameId s"
  "bodyUserSelect (cleanup s) = bodyUserSelect s" "bodyCursor (cleanup s) = bodyCursor s"
  by (simp_all add: cleanup_def Let_def split: option.splits)

lemma cleanup_body:
  "body (cleanup s) = (case ghostElement s of Some g \<Rightarrow> removeAll g (body s) | None \<Rightarrow> body s)"
  by (simp add: cleanup_def Let_def split: option.splits)

lemma cleanup_children:
  "children (cleanup s) =
     (case placeholder s of Some p \<Rightarrow> removeAll p (children s) | None \<Rightarrow> children s)"
  by (simp add: cleanup_def Let_def split: option.splits)

lemma cleanup_styles:
  "styles (cleanup s) =
     (case draggedElement s of Some d \<Rightarrow> (styles s)(d := noStyle) | None \<Rightarrow> styles s)"
  by (simp add: cleanup_def noStyle_def Let_def split: option.splits)

lemma cleanup_classDragging:
  "classDragging (cleanup s) =
     (case draggedElement s of Some d \<Rightarrow> (classDragging s)(d := False) | None \<Rightarrow> classDragging s)"
  by (simp add: cleanup_def Let_def split: option.splits)

subsection \<open>handlePointerUp\<close>

lemma handlePointerUp_drops:
  "drops (handlePointerUp s) =
     (if isDragging s then
        (case draggedElement s of
           Some d \<Rightarrow>
             if indexOf d (getDraggableItems s) \<noteq> - 1
                \<and> indexOf d (getDraggableItems s) \<noteq> draggedIndex s
             then drops s @ [(draggedIndex s, indexOf d (getDraggableItems s))]
             else drops s
         | None \<Rightarrow> drops s)
      else drops s)"
  by (simp add: handlePointerUp_def Let_def getDraggableItems_def split: option.splits)

text \<open>
  C10. When the dragged element is not among the draggable children of the container at
  pointer-up (\<open>indexOf\<close> gives -1), \<open>handlePointerUp\<close> does not call \<open>onDrop\<close>, and it
  still cleans up: the session is over, the ghost and the placeholder of the session
  are gone from the document, the three style properties and the class \<open>dragging\<close> of
  the element are cleared, and the three listeners on \<open>document\<close> are removed.
\<close>

theorem pointerUp_removed_item_no_drop:
  assumes "isDragging s" and "draggedElement s = Some d"
    and "indexOf d (getDraggableItems s) = - 1"
  shows "drops (handlePointerUp s) = drops s
    \<and> \<not> isDragging (handlePointerUp s)
    \<and> ghostElement (handlePointerUp s) = None
    \<and> placeholder (handlePointerUp s) = None
    \<and> draggedElement (handlePointerUp s) = None
    \<and> (\<forall>g. ghostElement s = Some g \<longrightarrow> g \<notin> set (body (handlePointerUp s)))
    \<and> (\<forall>p. placeholder s = Some p \<longrightarrow> p \<notin> set (children (handlePointerUp s)))
    \<and> styles (handlePointerUp s) d = noStyle
    \<and> \<not> classDragging (handlePointerUp s) d
    \<and> HandlePointerMove \<notin> set (moveListeners (handlePointerUp s))
    \<and> HandlePointerUp \<notin> set (upListeners (handlePointerUp s))
    \<and> HandlePointerUp \<notin> set (cancelListeners (handlePointerUp s))"
proof -
  have "drops (handlePointerUp s) = drops s"
    using assms by (simp add: handlePointerUp_drops)
  moreover have "\<not> isDragging (handlePointerUp s)"
    "ghostElement (handlePointerUp s) = None" "placeholder (handlePointerUp s) = None"
    "draggedElement (handlePointerUp s) = None"
    using assms by (simp_all add: handlePointerUp_def Let_def)
  moreover have "\<forall>g. ghostElement s = Some g \<longrightarrow> g \<notin> set (body (handlePointerUp s))"
    using assms by (simp add: handlePointerUp_def Let_def cleanup_body)
  moreover have "\<forall>p. placeholder s = Some p \<longrightarrow> p \<notin> set (children (handlePointerUp s))"
    using assms by (simp add: handlePointerUp_def Let_def cleanup_children)
  moreover have "styles (handlePointerUp s) d = noStyle"
    "\<not> classDragging (handlePointerUp s) d"
    using assms by (simp_all add: handlePointerUp_def Let_def cleanup_styles cleanup_classDragging)
  moreover have "HandlePointerMove \<notin> set (moveListeners (handlePointerUp s))"
    "HandlePointerUp \<notin> set (upListeners (handlePointerUp s))"
    "HandlePointerUp \<notin> set (cancelListeners (handlePointerUp s))"
    using assms by (simp_all add: handlePointerUp_def Let_def removeListener_def)
  ultimately show ?thesis by simp
qed

text \<open>
  The session on \<open>Item 0\<close> of three items, after the caller has taken \<open>Item 0\<close> out of
  the container.
\<close>

theorem pointerUp_removed_item_no_drop_witness:
  "isDragging (externalRemove (Item 0) (startDrag (Item 0) abc))
   \<and> draggedElement (externalRemove (Item 0) (startDrag (Item 0) abc)) = Some (Item 0)
   \<and> indexOf (Item 0) (getDraggableItems (externalRemove (Item 0) (startDrag (Item 0) abc))) = - 1
   \<and> drops (handlePointerUp (externalRemove (Item 0) (startDrag (Item 0) abc))) = []
   \<and> body (handlePointerUp (externalRemove (Item 0) (startDrag (Item 0) abc))) = []
   \<and> children (handlePointerUp (externalRemove (Item 0) (startDrag (Item 0) abc)))
       = [Item 1, Item 2]"
proof -
  let ?s = "externalRemove (Item 0) (startDrag (Item 0) abc)"
  have sd: "startDrag (Item 0) abc =
      abc\<lparr>isDragging := True, draggedElement := Some (Item 0), draggedIndex := 0,
          ghostElement := Some (Ghost 0), body := [Ghost 0], placeholder := Some (Placeholder 1),
          children := [Item 0, Placeholder 1, Item 1, Item 2],
          styles := (styles abc)(Item 0 :=
             \<lparr>opacity = ''0.3'', transition = ''none'', pointerEvents = ''none''\<rparr>),
          classDragging := (classDragging abc)(Item 0 := True),
          moveListeners := [HandlePointerMove], upListeners := [HandlePointerUp],
          cancelListeners := [HandlePointerUp], bodyUserSelect := ''none'',
          bodyCursor := ''grabbing'', nextId := 2\<rparr>"
    by (simp add: startDrag_def abc_def init_def getDraggableItems_def indexOf_def
        dom_insertBefore_def nextSibling_def addListener_def Let_def numeral_2_eq_2)
  have h1: "isDragging ?s" and h2: "draggedElement ?s = Some (Item 0)"
    and h3: "indexOf (Item 0) (getDraggableItems ?s) = - 1"
    by (simp_all add: sd externalRemove_def getDraggableItems_def indexOf_def)
  have g0: "ghostElement ?s = Some (Ghost 0)"
    by (simp add: sd externalRemove_def)
  have d0: "drops ?s = []"
    unfolding sd externalRemove_def by (simp add: abc_def init_def)
  have b: "body (handlePointerUp ?s) = []"
    by (simp add: handlePointerUp_def Let_def cleanup_body sd externalRemove_def
        getDraggableItems_def indexOf_def)
  have c: "children (handlePointerUp ?s) = [Item 1, Item 2]"
    by (simp add: handlePointerUp_def Let_def cleanup_children sd externalRemove_def
        getDraggableItems_def indexOf_def)
  from pointerUp_removed_item_no_drop [OF h1 h2 h3] d0 h1 h2 h3 b c
  show ?thesis by simp
qed

subsection \<open>Moving nodes in a child list\<close>

lemma getDraggableItems_subset: "set (getDraggableItems s) \<subseteq> set (children s)"
  by (auto simp: getDraggableItems_def)

lemma nextSibling_in_set: "nextSibling n cs = Some r \<Longrightarrow> r \<in> set cs"
proof -
  assume a: "nextSibling n cs = Some r"
  then obtain x rest where "dropWhile (\<lambda>c. c \<noteq> n) cs = x # r # rest"
    by (auto simp: nextSibling_def split: list.splits)
  then have "r \<in> set (dropWhile (\<lambda>c. c \<noteq> n) cs)" by simp
  then show ?thesis by (rule set_dropWhileD)
qed

lemma set_insertAt: "set (insertAt n r cs) \<subseteq> insert n (set cs)"
  by (induction cs) auto

lemma set_dom_insertBefore: "set (dom_insertBefore n ref cs) \<subseteq> insert n (set cs)"
  using set_insertAt [of n _ "removeAll n cs"]
  by (auto simp: dom_insertBefore_def split: option.splits)

lemma set_dom_appendChild: "set (dom_appendChild n cs) = insert n (set cs)"
  by (auto simp: dom_appendChild_def)

lemma distinct_insertAt: "distinct cs \<Longrightarrow> n \<notin> set cs \<Longrightarrow> distinct (insertAt n r cs)"
proof (induction cs)
  case Nil
  then show ?case by simp
next
  case (Cons c cs)
  then show ?case using set_insertAt [of n r cs] by auto
qed

lemma distinct_dom_insertBefore: "distinct cs \<Longrightarrow> distinct (dom_insertBefore n ref cs)"
  by (simp add: dom_insertBefore_def distinct_insertAt distinct_removeAll split: option.splits)

lemma distinct_dom_appendChild: "distinct cs \<Longrightarrow> distinct (dom_appendChild n cs)"
  by (simp add: dom_appendChild_def distinct_removeAll)

lemma filter_insertAt_notP: "\<not> P n \<Longrightarrow> filter P (insertAt n r cs) = filter P cs"
  by (induction cs) auto

lemma filter_removeAll_notP: "\<not> P n \<Longrightarrow> filter P (removeAll n cs) = filter P cs"
  by (induction cs) auto

lemma filter_removeAll_commute: "filter P (removeAll n cs) = removeAll n (filter P cs)"
  by (induction cs) auto

lemma filter_dom_insertBefore_notP:
  "\<not> P n \<Longrightarrow> filter P (dom_insertBefore n ref cs) = filter P cs"
  by (simp add: dom_insertBefore_def filter_insertAt_notP filter_removeAll_notP split: option.splits)

lemma filter_dom_appendChild_notP:
  "\<not> P n \<Longrightarrow> filter P (dom_appendChild n cs) = filter P cs"
  by (simp add: dom_appendChild_def filter_removeAll_notP)

lemma filter_insertAt_P:
  "P n \<Longrightarrow> filter P cs = [] \<Longrightarrow> r \<in> set cs \<Longrightarrow> filter P (insertAt n r cs) = [n]"
  by (induction cs) (auto split: if_splits)

lemma filter_removeAll_single:
  assumes "filter P cs = [] \<or> filter P cs = [n]"
  shows "filter P (removeAll n cs) = []"
  using assms by (auto simp: filter_removeAll_commute)

lemma filter_dom_insertBefore_P:
  assumes "P n" and "filter P cs = [] \<or> filter P cs = [n]"
  shows "filter P (dom_insertBefore n ref cs) = [] \<or> filter P (dom_insertBefore n ref cs) = [n]"
proof (cases ref)
  case None
  then show ?thesis
    using assms by (simp add: dom_insertBefore_def filter_removeAll_single)
next
  case (Some r)
  show ?thesis
  proof (cases "r \<notin> set cs \<or> r = n")
    case True
    then show ?thesis using assms Some by (simp add: dom_insertBefore_def)
  next
    case False
    then have "r \<in> set (removeAll n cs)" by simp
    then have "filter P (insertAt n r (removeAll n cs)) = [n]"
      using assms by (intro filter_insertAt_P) (simp_all add: filter_removeAll_single)
    then show ?thesis using False Some by (simp add: dom_insertBefore_def)
  qed
qed

lemma single_filter_subset:
  assumes "filter P cs = [] \<or> filter P cs = [p]"
  shows "set (filter P cs) \<subseteq> {p}"
proof -
  from assms consider "filter P cs = []" | "filter P cs = [p]" by blast
  then show ?thesis
  proof cases
    case 1
    then have "set (filter P cs) = set []" by (rule arg_cong)
    then show ?thesis by (simp del: set_filter)
  next
    case 2
    then have "set (filter P cs) = set [p]" by (rule arg_cong)
    then show ?thesis by (simp del: set_filter)
  qed
qed

lemma item_not_placeholder: "hasDraggable d \<Longrightarrow> \<not> isPlaceholder d"
  by (cases d) auto

lemma placeholder_not_ghost: "isPlaceholder p \<Longrightarrow> \<not> isGhost p"
  by (cases p) auto

lemma okKids_move_item:
  assumes "okKids p cs" and "\<not> isGhost d" and "\<not> isPlaceholder d"
  shows "okKids p (dom_insertBefore d ref cs)" and "okKids p (dom_appendChild d cs)"
  using assms set_dom_insertBefore [of d ref cs]
  by (auto simp: okKids_def filter_dom_insertBefore_notP filter_dom_appendChild_notP
      set_dom_appendChild distinct_dom_insertBefore distinct_dom_appendChild)

lemma okKids_move_placeholder:
  assumes "okKids p cs" and "isPlaceholder p"
  shows "okKids p (dom_insertBefore p ref cs)"
proof -
  have "\<not> isGhost p" using assms(2) by (rule placeholder_not_ghost)
  then have "\<forall>c \<in> set (dom_insertBefore p ref cs). \<not> isGhost c"
    using assms(1) set_dom_insertBefore [of p ref cs] by (auto simp: okKids_def)
  moreover have "filter isPlaceholder (dom_insertBefore p ref cs) = []
      \<or> filter isPlaceholder (dom_insertBefore p ref cs) = [p]"
    using assms by (intro filter_dom_insertBefore_P) (simp_all add: okKids_def)
  moreover have "distinct (dom_insertBefore p ref cs)"
    using assms(1) by (simp add: okKids_def distinct_dom_insertBefore)
  ultimately show ?thesis by (simp add: okKids_def)
qed

lemma okKids_removeAll: "okKids p cs \<Longrightarrow> okKids p (removeAll n cs)"
  by (auto simp: okKids_def filter_removeAll_commute distinct_removeAll split: if_splits)

lemma okKids_cleanup_children:
  assumes "okKids p cs" and "isPlaceholder p"
  shows "cleanKids (removeAll p cs)"
proof -
  have "\<not> isPlaceholder c" if c: "c \<in> set (removeAll p cs)" for c
  proof
    assume "isPlaceholder c"
    then have "c \<in> set (filter isPlaceholder cs)" using c by simp
    moreover have "set (filter isPlaceholder cs) \<subseteq> {p}"
      using assms(1) by (intro single_filter_subset) (simp add: okKids_def)
    ultimately show False using c by auto
  qed
  then show ?thesis
    using assms(1) by (auto simp: cleanKids_def okKids_def distinct_removeAll)
qed

lemma cleanKids_okKids: "cleanKids cs \<Longrightarrow> okKids p cs"
  by (auto simp: cleanKids_def okKids_def filter_empty_conv)

lemma cleanKids_removeAll: "cleanKids cs \<Longrightarrow> cleanKids (removeAll n cs)"
  by (auto simp: cleanKids_def distinct_removeAll)

lemma okKids_hoverReorder:
  assumes "okKids p cs" and "isPlaceholder p" and "\<not> isGhost d" and "\<not> isPlaceholder d"
  shows "okKids p (hoverReorder f hz x y d p h cs)"
  using assms
  by (simp add: hoverReorder_def Let_def okKids_move_item okKids_move_placeholder
      split: option.splits)

lemma okKids_edgeReorder:
  assumes "okKids p cs" and "isPlaceholder p" and "\<not> isGhost d" and "\<not> isPlaceholder d"
  shows "okKids p (edgeReorder f hz x y d p cs)"
  using assms
  by (simp add: edgeReorder_def Let_def okKids_move_item okKids_move_placeholder)

subsection \<open>The invariant is kept by every handler\<close>

lemma sessionInv_updateDragPosition:
  "sessionInv s \<Longrightarrow> sessionInv (updateDragPosition f x y s)"
  by (auto simp: sessionInv_def updateDragPosition_def Let_def okKids_hoverReorder
      okKids_edgeReorder item_not_placeholder split: option.splits if_splits)

lemma sessionInv_startDrag:
  assumes "sessionInv s"
  shows "sessionInv (startDrag item s)"
proof (cases "isDragging s")
  case True
  then show ?thesis using assms by (simp add: startDrag_def)
next
  case False
  show ?thesis
  proof (cases "indexOf item (getDraggableItems s) = - 1")
    case True
    then show ?thesis
      using assms False
      by (simp add: startDrag_def Let_def getDraggableItems_def sessionInv_def)
  next
    case idx: False
    then have mem: "item \<in> set (getDraggableItems s)" by (simp add: indexOf_minus1)
    then have hd: "hasDraggable item" and ch: "item \<in> set (children s)"
      by (auto simp: getDraggableItems_def)
    from assms False have clean: "cleanKids (children s)" and b: "body s = []"
      by (simp_all add: sessionInv_def)
    from clean ch have ng: "\<not> isGhost item" by (auto simp: cleanKids_def)
    from clean have "okKids (Placeholder (Suc (nextId s))) (children s)"
      by (rule cleanKids_okKids)
    then have ok: "okKids (Placeholder (Suc (nextId s)))
        (dom_insertBefore (Placeholder (Suc (nextId s))) (nextSibling item (children s)) (children s))"
      by (rule okKids_move_placeholder) simp
    show ?thesis
      using False idx hd ng b ok
      by (simp add: startDrag_def Let_def getDraggableItems_def sessionInv_def addListener_def)
  qed
qed

lemma sessionInv_handlePointerDown: "sessionInv s \<Longrightarrow> sessionInv (handlePointerDown e s)"
  by (auto simp: handlePointerDown_def Let_def sessionInv_def split: list.splits)

lemma sessionInv_listeners:
  assumes "sessionInv s"
  shows "sessionInv (s\<lparr>pendingDrag := pd,
            moveListeners := removeListener (HandleMove g) (moveListeners s),
            upListeners := removeListener (HandleUp g) (upListeners s)\<rparr>)"
  using assms by (auto simp: sessionInv_def removeListener_def split: option.splits)

lemma sessionInv_hasMoved: "sessionInv s \<Longrightarrow> sessionInv (s\<lparr>hasMoved := b\<rparr>)"
  by (auto simp: sessionInv_def split: option.splits)

lemma sessionInv_promote: "sessionInv s \<Longrightarrow> sessionInv (promote g pd s)"
  unfolding promote_def Let_def
  by (intro sessionInv_listeners sessionInv_startDrag sessionInv_hasMoved)

lemma sessionInv_handleMove: "sessionInv s \<Longrightarrow> sessionInv (handleMove g e s)"
  by (simp add: handleMove_def Let_def sessionInv_promote sessionInv_listeners
      split: option.splits)

lemma sessionInv_handleUp: "sessionInv s \<Longrightarrow> sessionInv (handleUp g s)"
  unfolding handleUp_def by (rule sessionInv_listeners)

lemma sessionInv_handlePointerMove: "sessionInv s \<Longrightarrow> sessionInv (handlePointerMove e s)"
  by (auto simp: handlePointerMove_def sessionInv_def split: option.splits)

lemma sessionInv_cleanup:
  assumes "sessionInv s" shows "sessionInv (cleanup s)"
proof (cases "isDragging s")
  case True
  with assms obtain g p d where refs: "ghostElement s = Some g" "placeholder s = Some p"
      "draggedElement s = Some d" and facts: "isPlaceholder p" "body s = [g]" "okKids p (children s)"
    by (auto simp: sessionInv_def split: option.splits)
  have "cleanKids (removeAll p (children s))"
    using facts(3) facts(1) by (rule okKids_cleanup_children)
  then show ?thesis
    using refs facts by (simp add: sessionInv_def cleanup_body cleanup_children)
next
  case False
  with assms show ?thesis
    by (simp add: sessionInv_def cleanup_body cleanup_children)
qed

lemma sessionInv_frame_cancel: "sessionInv s \<Longrightarrow> sessionInv (s\<lparr>animationFrameId := a\<rparr>)"
  by (auto simp: sessionInv_def split: option.splits)

lemma sessionInv_not_dragging_fields:
  assumes "sessionInv s" and "\<not> isDragging s"
  shows "sessionInv (s\<lparr>moveListeners := ml, upListeners := ul, cancelListeners := cl,
            bodyUserSelect := u, bodyCursor := c\<rparr>)"
  using assms by (simp add: sessionInv_def)

lemma sessionInv_drops: "sessionInv s \<Longrightarrow> sessionInv (s\<lparr>drops := r\<rparr>)"
  by (auto simp: sessionInv_def split: option.splits)

lemma sessionInv_handlePointerUp:
  assumes "sessionInv s" shows "sessionInv (handlePointerUp s)"
proof (cases "isDragging s")
  case False
  with assms show ?thesis by (simp add: handlePointerUp_def)
next
  case True
  then show ?thesis
    using assms
    by (simp add: handlePointerUp_def Let_def sessionInv_not_dragging_fields
        sessionInv_cleanup sessionInv_drops sessionInv_frame_cancel)
qed

lemma sessionInv_options: "sessionInv s \<Longrightarrow> sessionInv (s\<lparr>disabled := a, handle := b\<rparr>)"
  by (auto simp: sessionInv_def split: option.splits)

lemma sessionInv_update: "sessionInv s \<Longrightarrow> sessionInv (update a b s)"
  by (simp add: update_def Let_def sessionInv_cleanup sessionInv_options)

lemma sessionInv_externalRemove:
  "sessionInv s \<Longrightarrow> sessionInv (externalRemove n s)"
  by (auto simp: sessionInv_def externalRemove_def okKids_removeAll cleanKids_removeAll
      split: option.splits)

lemma sessionInv_runFrame: "sessionInv s \<Longrightarrow> sessionInv (runFrame f s)"
  by (auto simp: runFrame_def sessionInv_frame_cancel sessionInv_updateDragPosition
      split: option.splits)

lemma foldl_preserves:
  assumes "\<And>s l. P s \<Longrightarrow> P (f s l)" and "P s"
  shows "P (foldl f s ls)"
  using assms(2) by (induction ls arbitrary: s) (simp_all add: assms(1))

lemma sessionInv_runMoveListener: "sessionInv s \<Longrightarrow> sessionInv (runMoveListener l e s)"
  by (cases l) (simp_all add: sessionInv_handleMove sessionInv_handlePointerMove)

lemma sessionInv_runUpListener: "sessionInv s \<Longrightarrow> sessionInv (runUpListener l s)"
  by (cases l) (simp_all add: sessionInv_handleUp sessionInv_handlePointerUp)

lemma sessionInv_dispatchMove: "sessionInv s \<Longrightarrow> sessionInv (dispatchMove e s)"
  unfolding dispatchMove_def
  by (rule foldl_preserves) (simp_all add: sessionInv_runMoveListener)

lemma sessionInv_dispatchUp: "sessionInv s \<Longrightarrow> sessionInv (dispatchUp s)"
  unfolding dispatchUp_def
  by (rule foldl_preserves) (simp_all add: sessionInv_runUpListener)

lemma sessionInv_dispatchCancel: "sessionInv s \<Longrightarrow> sessionInv (dispatchCancel s)"
  unfolding dispatchCancel_def
  by (rule foldl_preserves) (simp_all add: sessionInv_runUpListener)

lemma sessionInv_step: "sessionInv s \<Longrightarrow> sessionInv (step s ev)"
  by (cases ev)
     (simp_all add: sessionInv_handlePointerDown sessionInv_dispatchMove sessionInv_dispatchUp
        sessionInv_dispatchCancel sessionInv_runFrame sessionInv_update sessionInv_externalRemove)

lemma sessionInv_run: "sessionInv s \<Longrightarrow> sessionInv (run s evs)"
  unfolding run_def by (rule foldl_preserves) (simp_all add: sessionInv_step)

lemma sessionInv_init: "cleanKids cs \<Longrightarrow> sessionInv (init cs sty cls dis hdl)"
  by (simp add: sessionInv_def init_def)

subsection \<open>One session, one ghost, one placeholder\<close>

lemma handlePointerDown_while_dragging: "isDragging s \<Longrightarrow> handlePointerDown e s = s"
  by (simp add: handlePointerDown_def)

lemma sessionInv_ghosts:
  assumes "sessionInv s"
  shows "length (filter isGhost (body s @ children s)) \<le> 1"
proof (cases "isDragging s")
  case True
  with assms obtain g p where "body s = [g]" and ok: "okKids p (children s)"
    by (auto simp: sessionInv_def split: option.splits)
  moreover from ok have "filter isGhost (children s) = []"
    by (simp add: okKids_def filter_empty_conv)
  ultimately show ?thesis by simp
next
  case False
  with assms have "body s = []" and "cleanKids (children s)"
    by (simp_all add: sessionInv_def)
  moreover from this have "filter isGhost (children s) = []"
    by (simp add: cleanKids_def filter_empty_conv)
  ultimately show ?thesis by simp
qed

lemma sessionInv_placeholders:
  assumes "sessionInv s"
  shows "length (filter isPlaceholder (body s @ children s)) \<le> 1"
proof (cases "isDragging s")
  case True
  with assms obtain g p where "body s = [g]" and "isGhost g" and ok: "okKids p (children s)"
    by (auto simp: sessionInv_def split: option.splits)
  moreover from \<open>isGhost g\<close> have "\<not> isPlaceholder g" by (cases g) auto
  moreover from ok have "length (filter isPlaceholder (children s)) \<le> 1"
    by (auto simp: okKids_def)
  ultimately show ?thesis by simp
next
  case False
  with assms have "body s = []" and "cleanKids (children s)"
    by (simp_all add: sessionInv_def)
  moreover from this have "filter isPlaceholder (children s) = []"
    by (simp add: cleanKids_def filter_empty_conv)
  ultimately show ?thesis by simp
qed

text \<open>
  C8. In every state the controller reaches from its start on a list without ghosts and
  placeholders, by any sequence of events: while a session is active a pointer-down
  leaves the state of the controller as it is, whatever its target; and the document
  (what the controller has put into \<open>document.body\<close>, and the container) holds at most
  one ghost and at most one placeholder.
\<close>

theorem one_session_one_ghost_one_placeholder:
  assumes "cleanKids cs"
  shows "(isDragging (run (init cs sty cls dis hdl) evs) \<longrightarrow>
            step (run (init cs sty cls dis hdl) evs) (PointerDown e)
              = run (init cs sty cls dis hdl) evs)
    \<and> length (filter isGhost (body (run (init cs sty cls dis hdl) evs)
                @ children (run (init cs sty cls dis hdl) evs))) \<le> 1
    \<and> length (filter isPlaceholder (body (run (init cs sty cls dis hdl) evs)
                @ children (run (init cs sty cls dis hdl) evs))) \<le> 1"
proof -
  have "sessionInv (run (init cs sty cls dis hdl) evs)"
    using assms by (intro sessionInv_run sessionInv_init)
  then show ?thesis
    using sessionInv_ghosts [of "run (init cs sty cls dis hdl) evs"]
      sessionInv_placeholders [of "run (init cs sty cls dis hdl) evs"]
    by (simp add: handlePointerDown_while_dragging del: filter_append)
qed

text \<open>
  The mouse is pressed on \<open>Item 1\<close> of three items and moved 20 pixels down: a session
  is active, with one ghost and one placeholder, and a press on \<open>Item 0\<close> changes nothing.
\<close>

theorem one_session_one_ghost_one_placeholder_witness:
  "cleanKids [Item 0, Item 1, Item 2]
   \<and> isDragging (run abc [PointerDown (mouseDown 1), PointerMove (moveTo 10 80 1010)])
   \<and> step (run abc [PointerDown (mouseDown 1), PointerMove (moveTo 10 80 1010)])
        (PointerDown (mouseDown 0))
      = run abc [PointerDown (mouseDown 1), PointerMove (moveTo 10 80 1010)]
   \<and> body (run abc [PointerDown (mouseDown 1), PointerMove (moveTo 10 80 1010)]) = [Ghost 1]
   \<and> children (run abc [PointerDown (mouseDown 1), PointerMove (moveTo 10 80 1010)])
      = [Item 0, Item 1, Placeholder 2, Item 2]"
proof -
  have c: "cleanKids [Item 0, Item 1, Item 2]"
    by (simp add: cleanKids_def)
  have d: "isDragging (run abc [PointerDown (mouseDown 1), PointerMove (moveTo 10 80 1010)])"
    by code_simp
  have b: "body (run abc [PointerDown (mouseDown 1), PointerMove (moveTo 10 80 1010)]) = [Ghost 1]"
    by code_simp
  have k: "children (run abc [PointerDown (mouseDown 1), PointerMove (moveTo 10 80 1010)])
      = [Item 0, Item 1, Placeholder 2, Item 2]"
    by code_simp
  from one_session_one_ghost_one_placeholder [OF c, of "\<lambda>n. noStyle" "\<lambda>n. False" False False
      "[PointerDown (mouseDown 1), PointerMove (moveTo 10 80 1010)]" "mouseDown 0"] c d b k
  show ?thesis by (simp add: abc_def)
qed

subsection \<open>How a session ends\<close>

lemma handlePointerUp_fields:
  assumes "isDragging s"
  shows "children (handlePointerUp s) = children (cleanup s)"
    and "body (handlePointerUp s) = body (cleanup s)"
    and "styles (handlePointerUp s) = styles (cleanup s)"
    and "classDragging (handlePointerUp s) = classDragging (cleanup s)"
    and "isDragging (handlePointerUp s) = False"
    and "moveListeners (handlePointerUp s) = removeListener HandlePointerMove (moveListeners s)"
    and "upListeners (handlePointerUp s) = removeListener HandlePointerUp (upListeners s)"
    and "cancelListeners (handlePointerUp s) = removeListener HandlePointerUp (cancelListeners s)"
  using assms
  by (simp_all add: handlePointerUp_def Let_def cleanup_children cleanup_body cleanup_styles
      cleanup_classDragging split: option.splits)

lemma handleUp_fields [simp]:
  "isDragging (handleUp g s) = isDragging s" "draggedElement (handleUp g s) = draggedElement s"
  "draggedIndex (handleUp g s) = draggedIndex s" "ghostElement (handleUp g s) = ghostElement s"
  "placeholder (handleUp g s) = placeholder s" "children (handleUp g s) = children s"
  "body (handleUp g s) = body s" "styles (handleUp g s) = styles s"
  "classDragging (handleUp g s) = classDragging s" "drops (handleUp g s) = drops s"
  "cancelListeners (handleUp g s) = cancelListeners s"
  by (simp_all add: handleUp_def)

lemma inSession_handleUp:
  assumes "inSession s0 s" shows "inSession s0 (handleUp g s)"
proof -
  have "sessionInv (handleUp g s)"
    using assms by (simp add: inSession_def sessionInv_handleUp)
  then show ?thesis using assms by (simp add: inSession_def)
qed

lemma inSession_ended:
  assumes "inSession s0 s" shows "sessionEnded s0 (handlePointerUp s)"
proof -
  from assms have d: "isDragging s" "isDragging s0" and inv: "sessionInv s"
    by (simp_all add: inSession_def)
  have "sessionInv (handlePointerUp s)" using inv by (rule sessionInv_handlePointerUp)
  moreover have e: "getDraggableItems s = getDraggableItems s0"
    "draggedElement s = draggedElement s0" "draggedIndex s = draggedIndex s0"
    "drops s = drops s0"
    using assms by (simp_all add: inSession_def getDraggableItems_def)
  have "drops (handlePointerUp s) = drops (handlePointerUp s0)"
    by (simp add: handlePointerUp_drops d e split: option.splits)
  ultimately show ?thesis
    using assms
    by (simp add: sessionEnded_def handlePointerUp_fields [OF d(1)] handlePointerUp_fields [OF d(2)]
        cleanup_children cleanup_body cleanup_styles cleanup_classDragging inSession_def
        removeListener_def split: option.splits)
qed

lemma sessionEnded_runUpListener:
  assumes "sessionEnded s0 s'" shows "sessionEnded s0 (runUpListener l s')"
proof (cases l)
  case (HandleUp g)
  then show ?thesis
    using assms sessionInv_handleUp [of s' g]
    by (simp add: sessionEnded_def) (simp add: handleUp_def removeListener_def)
next
  case HandlePointerUp
  then show ?thesis using assms by (simp add: sessionEnded_def handlePointerUp_def)
qed (use assms in simp_all)

lemma inSession_runUpListener:
  assumes "inSession s0 s"
  shows "if l = HandlePointerUp then sessionEnded s0 (runUpListener l s)
         else inSession s0 (runUpListener l s)"
  using assms by (cases l) (simp_all add: inSession_handleUp inSession_ended)

lemma inSession_listeners:
  "inSession s0 s \<Longrightarrow> HandlePointerUp \<in> set (upListeners s) \<and> HandlePointerUp \<in> set (cancelListeners s)"
  by (simp add: inSession_def sessionInv_def)

lemma end_fold_up:
  assumes "inSession s0 s"
  shows "if HandlePointerUp \<in> set ls
         then sessionEnded s0 (foldl (\<lambda>st l. if l \<in> set (upListeners st) then runUpListener l st else st) s ls)
         else inSession s0 (foldl (\<lambda>st l. if l \<in> set (upListeners st) then runUpListener l st else st) s ls)"
  using assms
proof (induction ls arbitrary: s)
  case Nil
  then show ?case by simp
next
  case (Cons l ls)
  let ?F = "\<lambda>st l. if l \<in> set (upListeners st) then runUpListener l st else st"
  show ?case
  proof (cases "l = HandlePointerUp")
    case True
    have "?F s l = handlePointerUp s"
      using True inSession_listeners [OF Cons.prems] by simp
    moreover have "sessionEnded s0 (handlePointerUp s)"
      using Cons.prems by (rule inSession_ended)
    then have "sessionEnded s0 (foldl ?F (handlePointerUp s) ls)"
      by (rule foldl_preserves [rotated]) (simp add: sessionEnded_runUpListener)
    ultimately show ?thesis using True inSession_listeners [OF Cons.prems] by simp
  next
    case False
    then have "inSession s0 (?F s l)"
      using Cons.prems inSession_runUpListener [OF Cons.prems, of l] by simp
    from Cons.IH [OF this] False show ?thesis by simp
  qed
qed

lemma end_fold_cancel:
  assumes "inSession s0 s"
  shows "if HandlePointerUp \<in> set ls
         then sessionEnded s0 (foldl (\<lambda>st l. if l \<in> set (cancelListeners st) then runUpListener l st else st) s ls)
         else inSession s0 (foldl (\<lambda>st l. if l \<in> set (cancelListeners st) then runUpListener l st else st) s ls)"
  using assms
proof (induction ls arbitrary: s)
  case Nil
  then show ?case by simp
next
  case (Cons l ls)
  let ?F = "\<lambda>st l. if l \<in> set (cancelListeners st) then runUpListener l st else st"
  show ?case
  proof (cases "l = HandlePointerUp")
    case True
    have "?F s l = handlePointerUp s"
      using True inSession_listeners [OF Cons.prems] by simp
    moreover have "sessionEnded s0 (handlePointerUp s)"
      using Cons.prems by (rule inSession_ended)
    then have "sessionEnded s0 (foldl ?F (handlePointerUp s) ls)"
      by (rule foldl_preserves [rotated]) (simp add: sessionEnded_runUpListener)
    ultimately show ?thesis using True inSession_listeners [OF Cons.prems] by simp
  next
    case False
    then have "inSession s0 (?F s l)"
      using Cons.prems inSession_runUpListener [OF Cons.prems, of l] by simp
    from Cons.IH [OF this] False show ?thesis by simp
  qed
qed

lemma inSession_refl: "sessionInv s \<Longrightarrow> isDragging s \<Longrightarrow> inSession s s"
  by (simp add: inSession_def)

lemma dispatchUp_ends:
  assumes "sessionInv s" and "isDragging s"
  shows "sessionEnded s (dispatchUp s)"
  using end_fold_up [OF inSession_refl [OF assms], of "upListeners s"]
    inSession_listeners [OF inSession_refl [OF assms]]
  by (simp add: dispatchUp_def)

lemma dispatchCancel_ends:
  assumes "sessionInv s" and "isDragging s"
  shows "sessionEnded s (dispatchCancel s)"
  using end_fold_cancel [OF inSession_refl [OF assms], of "cancelListeners s"]
    inSession_listeners [OF inSession_refl [OF assms]]
  by (simp add: dispatchCancel_def)

subsection \<open>The call of onDrop\<close>

lemma keepsSession_startDrag: "keepsSession s0 s \<Longrightarrow> keepsSession s0 (startDrag item s)"
  by (simp add: keepsSession_def startDrag_def)

lemma keepsSession_promote: "keepsSession s0 s \<Longrightarrow> keepsSession s0 (promote g pd s)"
  by (simp add: keepsSession_def promote_def startDrag_def Let_def)

lemma keepsSession_handleMove: "keepsSession s0 s \<Longrightarrow> keepsSession s0 (handleMove g e s)"
  using keepsSession_promote [of s0 s g]
  by (auto simp: handleMove_def Let_def split: option.splits) (simp_all add: keepsSession_def)

lemma keepsSession_runMoveListener:
  "keepsSession s0 s \<Longrightarrow> keepsSession s0 (runMoveListener l e s)"
  by (cases l) (simp_all add: keepsSession_handleMove, simp add: keepsSession_def handlePointerMove_def)

lemma keepsSession_dispatchMove: "keepsSession s0 s \<Longrightarrow> keepsSession s0 (dispatchMove e s)"
  unfolding dispatchMove_def
  by (rule foldl_preserves) (simp_all add: keepsSession_runMoveListener)

lemma keepsSession_updateDragPosition:
  "keepsSession s0 s \<Longrightarrow> keepsSession s0 (updateDragPosition f x y s)"
  by (auto simp: keepsSession_def updateDragPosition_def Let_def split: option.splits)

lemma keepsSession_step:
  assumes "keepsSession s0 s" and "duringDrag ev"
  shows "keepsSession s0 (step s ev)"
proof (cases ev)
  case (PointerDown e)
  then show ?thesis using assms by (simp add: keepsSession_def handlePointerDown_def)
next
  case (PointerMove e)
  then show ?thesis using assms by (simp add: keepsSession_dispatchMove)
next
  case (AnimationFrame f)
  then show ?thesis
    using assms keepsSession_updateDragPosition [of s0 s f]
    by (auto simp: runFrame_def keepsSession_def split: option.splits)
next
  case (Update a b)
  then show ?thesis using assms by (simp add: keepsSession_def update_def)
next
  case (ExternalRemove n)
  then show ?thesis using assms by (simp add: keepsSession_def externalRemove_def)
qed (use assms in simp_all)

lemma keepsSession_run:
  assumes "keepsSession s0 s" and "\<forall>ev \<in> set evs. duringDrag ev"
  shows "keepsSession s0 (run s evs)"
  using assms unfolding run_def
  by (induction evs arbitrary: s) (simp_all add: keepsSession_step)

lemma promote_starts:
  assumes "\<not> isDragging s" and "indexOf (p_item pd) (getDraggableItems s) \<noteq> - 1"
  shows "isDragging (promote g pd s)"
    and "draggedElement (promote g pd s) = Some (p_item pd)"
    and "draggedIndex (promote g pd s) = indexOf (p_item pd) (getDraggableItems s)"
    and "drops (promote g pd s) = drops s"
  using assms
  by (simp_all add: promote_def startDrag_def Let_def getDraggableItems_def)

lemma dispatchUp_drops:
  assumes "sessionInv s" and "isDragging s" and "draggedElement s = Some d"
  shows "drops (dispatchUp s) =
     (if indexOf d (getDraggableItems s) \<noteq> - 1 \<and> indexOf d (getDraggableItems s) \<noteq> draggedIndex s
      then drops s @ [(draggedIndex s, indexOf d (getDraggableItems s))]
      else drops s)"
  using dispatchUp_ends [OF assms(1,2)] assms(2,3)
  by (simp add: sessionEnded_def handlePointerUp_drops)

text \<open>
  C1, as the code has it. A gesture is promoted to a drag of the item \<open>p_item pd\<close>, which
  is at index \<open>i\<close> among the draggable children; events that do not end the session
  follow (moves, frames, pointer-downs, rows taken out by the caller, reconfiguration
  that does not disable); then comes pointer-up, with the item at index \<open>j\<close> among the
  draggable children, or \<open>j = -1\<close> when it is no longer one of them. \<open>onDrop\<close> is called
  exactly when \<open>j\<close> is not -1 and differs from \<open>i\<close>, once, with \<open>(i, j)\<close>.
\<close>

theorem drop_callback_indices:
  assumes "cleanKids cs" and "s0 = run (init cs sty cls dis hdl) pre"
    and "\<not> isDragging s0" and "indexOf (p_item pd) (getDraggableItems s0) \<noteq> - 1"
    and "\<forall>ev \<in> set evs. duringDrag ev"
    and "s1 = run (promote g pd s0) evs"
    and "i = indexOf (p_item pd) (getDraggableItems s0)"
    and "j = indexOf (p_item pd) (getDraggableItems s1)"
  shows "drops (step s1 PointerUp) = (if j \<noteq> - 1 \<and> j \<noteq> i then drops s0 @ [(i, j)] else drops s0)"
proof -
  have inv0: "sessionInv s0"
    using assms(1,2) by (simp add: sessionInv_run sessionInv_init)
  have inv1: "sessionInv s1"
    using inv0 assms(6) by (simp add: sessionInv_run sessionInv_promote)
  have "keepsSession (promote g pd s0) (promote g pd s0)"
    using promote_starts(1) [OF assms(3,4)] by (simp add: keepsSession_def)
  then have "keepsSession (promote g pd s0) s1"
    unfolding assms(6) using assms(5) by (rule keepsSession_run)
  then have k: "isDragging s1" "draggedElement s1 = Some (p_item pd)" "draggedIndex s1 = i"
    "drops s1 = drops s0"
    using promote_starts [OF assms(3,4), of g] assms(7) by (simp_all add: keepsSession_def)
  show ?thesis
    using dispatchUp_drops [OF inv1 k(1,2)] k(3,4) assms(8) by simp
qed

text \<open>
  \<open>Item 1\<close> of three is dragged below the last item and released: one call, with (1, 2).
\<close>

theorem drop_callback_indices_witness:
  "cleanKids [Item 0, Item 1, Item 2]
   \<and> \<not> isDragging (run abc [PointerDown (mouseDown 1)])
   \<and> indexOf (p_item pendingOne) (getDraggableItems (run abc [PointerDown (mouseDown 1)])) = 1
   \<and> duringDrag (PointerMove (moveTo 10 300 1020)) \<and> duringDrag (AnimationFrame column)
   \<and> indexOf (p_item pendingOne) (getDraggableItems
         (run (promote mouseGesture pendingOne (run abc [PointerDown (mouseDown 1)]))
            [PointerMove (moveTo 10 300 1020), AnimationFrame column])) = 2
   \<and> drops (step
         (run (promote mouseGesture pendingOne (run abc [PointerDown (mouseDown 1)]))
            [PointerMove (moveTo 10 300 1020), AnimationFrame column]) PointerUp) = [(1, 2)]"
proof -
  let ?s0 = "run abc [PointerDown (mouseDown 1)]"
  let ?evs = "[PointerMove (moveTo 10 300 1020), AnimationFrame column]"
  have c: "cleanKids [Item 0, Item 1, Item 2]"
    by (simp add: cleanKids_def)
  have r: "?s0 = run (init [Item 0, Item 1, Item 2] (\<lambda>n. noStyle) (\<lambda>n. False) False False)
      [PointerDown (mouseDown 1)]"
    by (simp add: abc_def)
  have nd: "\<not> isDragging ?s0"
    by code_simp
  have i: "indexOf (p_item pendingOne) (getDraggableItems ?s0) = 1"
    by code_simp
  then have i': "indexOf (p_item pendingOne) (getDraggableItems ?s0) \<noteq> - 1"
    by simp
  have dd: "\<forall>ev \<in> set ?evs. duringDrag ev"
    by simp
  have j: "indexOf (p_item pendingOne) (getDraggableItems
      (run (promote mouseGesture pendingOne ?s0) ?evs)) = 2"
    by code_simp
  have d0: "drops ?s0 = []"
    by code_simp
  from drop_callback_indices [OF c r nd i' dd refl refl refl, of mouseGesture] i j d0 c nd dd
  show ?thesis by simp
qed

text \<open>
  The claim as stated fails when the caller takes the dragged row out of the container
  during the drag: at pointer-up its index is -1, which differs from the starting
  index 0, and \<open>onDrop\<close> is not called.
\<close>

theorem drop_callback_removed_item_counterexample:
  "draggedIndex (run abc [PointerDown (mouseDown 0), PointerMove (moveTo 10 30 1010),
       ExternalRemove (Item 0)]) = 0
   \<and> draggedElement (run abc [PointerDown (mouseDown 0), PointerMove (moveTo 10 30 1010),
       ExternalRemove (Item 0)]) = Some (Item 0)
   \<and> indexOf (Item 0) (getDraggableItems (run abc [PointerDown (mouseDown 0),
       PointerMove (moveTo 10 30 1010), ExternalRemove (Item 0)])) = - 1
   \<and> drops (step (run abc [PointerDown (mouseDown 0), PointerMove (moveTo 10 30 1010),
       ExternalRemove (Item 0)]) PointerUp) = []"
  by code_simp

subsection \<open>What is left after a session\<close>

lemma sessionInv_idle_document:
  assumes "sessionInv s" and "\<not> isDragging s"
  shows "filter isGhost (body s @ children s) = []"
    and "filter isPlaceholder (body s @ children s) = []"
  using assms by (simp_all add: sessionInv_def cleanKids_def filter_empty_conv)

lemma sessionEnded_facts:
  assumes "sessionEnded s s'" and "isDragging s" and "draggedElement s = Some d"
  shows "\<not> isDragging s'"
    and "filter isGhost (body s' @ children s') = []"
    and "filter isPlaceholder (body s' @ children s') = []"
    and "styles s' d = noStyle" and "\<not> classDragging s' d"
    and "HandlePointerMove \<notin> set (moveListeners s')"
    and "HandlePointerUp \<notin> set (upListeners s')"
    and "HandlePointerUp \<notin> set (cancelListeners s')"
proof -
  from assms(1) have inv: "sessionInv s'" and nd: "\<not> isDragging s'"
    by (simp_all add: sessionEnded_def)
  show "\<not> isDragging s'" by (rule nd)
  show "filter isGhost (body s' @ children s') = []"
    and "filter isPlaceholder (body s' @ children s') = []"
    using sessionInv_idle_document [OF inv nd] by simp_all
  show "styles s' d = noStyle" and "\<not> classDragging s' d"
    using assms
    by (simp_all add: sessionEnded_def handlePointerUp_fields cleanup_styles cleanup_classDragging)
  show "HandlePointerMove \<notin> set (moveListeners s')"
    and "HandlePointerUp \<notin> set (upListeners s')"
    and "HandlePointerUp \<notin> set (cancelListeners s')"
    using assms(1) by (simp_all add: sessionEnded_def)
qed

lemma update_disabled_facts:
  assumes "sessionInv s" and "isDragging s" and "draggedElement s = Some d"
  shows "\<not> isDragging (update True h s)"
    and "filter isGhost (body (update True h s) @ children (update True h s)) = []"
    and "filter isPlaceholder (body (update True h s) @ children (update True h s)) = []"
    and "styles (update True h s) d = noStyle" and "\<not> classDragging (update True h s) d"
    and "drops (update True h s) = drops s"
proof -
  have inv: "sessionInv (update True h s)" using assms(1) by (rule sessionInv_update)
  show nd: "\<not> isDragging (update True h s)"
    using assms(2) by (simp add: update_def)
  show "filter isGhost (body (update True h s) @ children (update True h s)) = []"
    and "filter isPlaceholder (body (update True h s) @ children (update True h s)) = []"
    using sessionInv_idle_document [OF inv nd] by simp_all
  show "styles (update True h s) d = noStyle" and "\<not> classDragging (update True h s) d"
    and "drops (update True h s) = drops s"
    using assms(2,3) by (simp_all add: update_def cleanup_styles cleanup_classDragging)
qed

text \<open>The path through \<open>update\<close> leaves the listeners and the overrides on the page.\<close>

lemma update_disabled_keeps_listeners:
  assumes "isDragging s"
  shows "moveListeners (update True h s) = moveListeners s"
    and "upListeners (update True h s) = upListeners s"
    and "cancelListeners (update True h s) = cancelListeners s"
    and "bodyUserSelect (update True h s) = bodyUserSelect s"
    and "bodyCursor (update True h s) = bodyCursor s"
  using assms by (simp_all add: update_def)

lemma destroy_detaches:
  "HandlePointerMove \<notin> set (moveListeners (destroy s))"
  "HandlePointerUp \<notin> set (upListeners (destroy s))"
  "HandlePointerUp \<notin> set (cancelListeners (destroy s))"
  by (simp_all add: destroy_def Let_def removeListener_def)

text \<open>
  C3, as the code has it. The controller has reached a state with an active session on
  the item \<open>d\<close>. After pointer-up, after pointer-cancel, and after reconfiguration to
  disabled, no session is active, no ghost and no placeholder is left in the document,
  the inline opacity, transition and pointer-events of \<open>d\<close> are empty and \<open>d\<close> does not
  have the class \<open>dragging\<close> (its state before the drag when it had none of these).
  After pointer-up and pointer-cancel the three listeners of the session are off
  \<open>document\<close>. Reconfiguration to disabled calls \<open>onDrop\<close> for nothing.
\<close>

theorem session_end_cleanup:
  assumes "cleanKids cs" and "s = run (init cs sty cls dis hdl) evs"
    and "isDragging s" and "draggedElement s = Some d"
  shows "(\<forall>s' \<in> {step s PointerUp, step s PointerCancel, step s (Update True h)}.
            \<not> isDragging s'
            \<and> filter isGhost (body s' @ children s') = []
            \<and> filter isPlaceholder (body s' @ children s') = []
            \<and> styles s' d = noStyle \<and> \<not> classDragging s' d)
    \<and> (\<forall>s' \<in> {step s PointerUp, step s PointerCancel}.
            HandlePointerMove \<notin> set (moveListeners s')
            \<and> HandlePointerUp \<notin> set (upListeners s')
            \<and> HandlePointerUp \<notin> set (cancelListeners s'))
    \<and> drops (step s (Update True h)) = drops s"
proof -
  have inv: "sessionInv s"
    using assms(1,2) by (simp add: sessionInv_run sessionInv_init)
  note up = sessionEnded_facts [OF dispatchUp_ends [OF inv assms(3)] assms(3,4)]
  note cancel = sessionEnded_facts [OF dispatchCancel_ends [OF inv assms(3)] assms(3,4)]
  note upd = update_disabled_facts [OF inv assms(3,4), of h]
  show ?thesis
    using up cancel upd by (simp del: filter_append)
qed

text \<open>The session on \<open>Item 1\<close> of three items, ended in each of the three ways.\<close>

theorem session_end_cleanup_witness:
  "cleanKids [Item 0, Item 1, Item 2]
   \<and> isDragging (run abc [PointerDown (mouseDown 1), PointerMove (moveTo 10 80 1010)])
   \<and> draggedElement (run abc [PointerDown (mouseDown 1), PointerMove (moveTo 10 80 1010)])
       = Some (Item 1)
   \<and> children (step (run abc [PointerDown (mouseDown 1), PointerMove (moveTo 10 80 1010)])
        PointerUp) = [Item 0, Item 1, Item 2]
   \<and> body (step (run abc [PointerDown (mouseDown 1), PointerMove (moveTo 10 80 1010)])
        PointerCancel) = []
   \<and> styles (step (run abc [PointerDown (mouseDown 1), PointerMove (moveTo 10 80 1010)])
        (Update True False)) (Item 1) = noStyle
   \<and> moveListeners (step (run abc [PointerDown (mouseDown 1), PointerMove (moveTo 10 80 1010)])
        PointerUp) = []
   \<and> drops (step (run abc [PointerDown (mouseDown 1), PointerMove (moveTo 10 80 1010)])
        (Update True False)) = []"
proof -
  let ?s = "run abc [PointerDown (mouseDown 1), PointerMove (moveTo 10 80 1010)]"
  have c: "cleanKids [Item 0, Item 1, Item 2]"
    by (simp add: cleanKids_def)
  have r: "?s = run (init [Item 0, Item 1, Item 2] (\<lambda>n. noStyle) (\<lambda>n. False) False False)
      [PointerDown (mouseDown 1), PointerMove (moveTo 10 80 1010)]"
    by (simp add: abc_def)
  have d: "isDragging ?s" by code_simp
  have e: "draggedElement ?s = Some (Item 1)" by code_simp
  have k: "children (step ?s PointerUp) = [Item 0, Item 1, Item 2]" by code_simp
  have b: "body (step ?s PointerCancel) = []" by code_simp
  have m: "moveListeners (step ?s PointerUp) = []" by code_simp
  have o: "drops ?s = []" by code_simp
  from session_end_cleanup [OF c r d e, of False] c d e k b m o
  show ?thesis by (simp del: filter_append)
qed

text \<open>
  The claim as stated fails in two places, both seen when an item that carries an
  inline opacity of its own is dragged and the controller is disabled during the drag:
  the opacity of the item is empty afterwards, not what it was before the drag, and
  the three listeners of the session are still on \<open>document\<close>.
\<close>

theorem session_end_cleanup_counterexample:
  "isDragging (run dimmed [PointerDown (mouseDown 1), PointerMove (moveTo 10 80 1010)])
   \<and> opacity (styles dimmed (Item 1)) = ''0.5''
   \<and> opacity (styles (run dimmed [PointerDown (mouseDown 1), PointerMove (moveTo 10 80 1010),
         Update True False]) (Item 1)) = []
   \<and> HandlePointerMove \<in> set (moveListeners (run dimmed [PointerDown (mouseDown 1),
         PointerMove (moveTo 10 80 1010), Update True False]))
   \<and> HandlePointerUp \<in> set (upListeners (run dimmed [PointerDown (mouseDown 1),
         PointerMove (moveTo 10 80 1010), Update True False]))
   \<and> HandlePointerUp \<in> set (cancelListeners (run dimmed [PointerDown (mouseDown 1),
         PointerMove (moveTo 10 80 1010), Update True False]))"
  by code_simp

subsection \<open>Pointer-down on a control\<close>

lemma handlePointerDown_interactive:
  assumes "closest isInteractive (pd_path e) \<noteq> []"
    and "closest isInteractive (pd_path e) \<noteq> closest isDraggableElem (pd_path e)"
  shows "handlePointerDown e s = s"
  using assms by (simp add: handlePointerDown_def Let_def)

lemma closest_idem: "closest sel (closest sel path) = closest sel path"
  by (induction path) (simp_all add: closest_def)

lemma control_outside_items:
  assumes "closest isInteractive path = ic" and "ic \<noteq> []"
    and "closest isDraggableElem ic = []"
  shows "ic \<noteq> closest isDraggableElem path"
proof
  assume "ic = closest isDraggableElem path"
  then have "closest isDraggableElem ic = ic"
    by (simp add: closest_idem)
  with assms(2,3) show False by simp
qed

text \<open>
  C9, as the code has it. The target of a pointer-down is, or is inside, an interactive
  control \<open>c\<close> (the nearest element at or above the target that matches the selector),
  and \<open>c\<close> is not the draggable item of the target (the nearest element with
  \<open>data-draggable\<close> at or above the target). Then the event changes nothing: no pending
  gesture, no listener, so no drag can start from it. This covers a control inside an
  item and, by \<open>control_outside_items\<close>, a control with no draggable element at or
  above it.
\<close>

theorem pointerDown_on_control_ignored:
  assumes "closest isInteractive (pd_path e) = c # outer"
    and "c # outer \<noteq> closest isDraggableElem (pd_path e)"
  shows "step s (PointerDown e) = s"
  using assms by (simp add: handlePointerDown_interactive)

text \<open>A button inside \<open>Item 1\<close> is pressed.\<close>

theorem pointerDown_on_control_ignored_witness:
  "closest isInteractive (pd_path (pressOn [innerButton, itemElem 1, listElem 150]))
     = [innerButton, itemElem 1, listElem 150]
   \<and> closest isDraggableElem (pd_path (pressOn [innerButton, itemElem 1, listElem 150]))
     = [itemElem 1, listElem 150]
   \<and> step abc (PointerDown (pressOn [innerButton, itemElem 1, listElem 150])) = abc"
proof -
  let ?e = "pressOn [innerButton, itemElem 1, listElem 150]"
  have i: "closest isInteractive (pd_path ?e) = [innerButton, itemElem 1, listElem 150]"
    by (simp add: pressOn_def closest_def isInteractive_def innerButton_def)
  have d: "closest isDraggableElem (pd_path ?e) = [itemElem 1, listElem 150]"
    by (simp add: pressOn_def closest_def isDraggableElem_def innerButton_def itemElem_def)
  have n: "innerButton # [itemElem 1, listElem 150] \<noteq> closest isDraggableElem (pd_path ?e)"
    unfolding d by simp
  from pointerDown_on_control_ignored [OF i n, of abc] i d show ?thesis by simp
qed

text \<open>
  The claim as stated fails for a control that is itself the draggable item and lies
  inside no other: the press on such a button creates a pending gesture, and a move of
  20 pixels starts the drag.
\<close>

theorem draggable_button_counterexample:
  "closest isInteractive (pd_path (pressOn [buttonItem 1, listElem 150]))
     = [buttonItem 1, listElem 150]
   \<and> closest isDraggableElem [listElem 150] = []
   \<and> pendingDrag (step abc (PointerDown (pressOn [buttonItem 1, listElem 150]))) \<noteq> None
   \<and> isDragging (run abc [PointerDown (pressOn [buttonItem 1, listElem 150]),
        PointerMove (moveTo 60 90 1010)])"
proof -
  have 1: "closest isInteractive (pd_path (pressOn [buttonItem 1, listElem 150]))
     = [buttonItem 1, listElem 150]"
    by (simp add: pressOn_def closest_def isInteractive_def buttonItem_def)
  have 2: "closest isDraggableElem [listElem 150] = []"
    by (simp add: closest_def isDraggableElem_def listElem_def)
  have 3: "pendingDrag (step abc (PointerDown (pressOn [buttonItem 1, listElem 150]))) \<noteq> None"
    by code_simp
  have 4: "isDragging (run abc [PointerDown (pressOn [buttonItem 1, listElem 150]),
        PointerMove (moveTo 60 90 1010)])"
    by code_simp
  from 1 2 3 4 show ?thesis by simp
qed

subsection \<open>Promotion of a touch gesture on a list that scrolls\<close>

text \<open>
  With the threshold 30 the test \<open>moveDistance < 30 \<or> (moveDistance < 21 \<and> elapsedTime < 200)\<close>
  of \<open>handleMove\<close> is \<open>moveDistance < 30\<close>: the elapsed time decides nothing.
\<close>

lemma touch_scroll_promotion_ignores_time:
  assumes "pendingDrag s = Some pd" and "g_isTouch g" and "g_isScrollable g"
    and "g_dragThreshold g = 30"
    and "\<not> \<bar>pm_clientY m - p_startY pd\<bar> > \<bar>pm_clientX m - p_startX pd\<bar> * 1.5"
  shows "handleMove g m s =
     (if max \<bar>pm_clientY m - p_startY pd\<bar> \<bar>pm_clientX m - p_startX pd\<bar> < 30 then s
      else promote g pd s)"
  using assms by (simp add: handleMove_def Let_def)

text \<open>
  C2 at a move the claim says is promoted: a finger goes down on \<open>Item 1\<close> of a list
  that scrolls, and 300 ms later it has moved 25 pixels to the right and not up or
  down. The move leaves the state as it was; the gesture is still pending and no drag
  has started.
\<close>

theorem slow_short_touch_move_not_promoted:
  "isTouchOf (touchDown 1)
   \<and> isScrollableOf (closest isDraggableElem (pd_path (touchDown 1)))
   \<and> pendingDrag (run abc [PointerDown (touchDown 1)]) \<noteq> None
   \<and> run abc [PointerDown (touchDown 1), PointerMove (moveTo 35 60 1300)]
       = run abc [PointerDown (touchDown 1)]
   \<and> \<not> isDragging (run abc [PointerDown (touchDown 1), PointerMove (moveTo 35 60 1300)])"
proof -
  have 1: "isTouchOf (touchDown 1)" by (simp add: isTouchOf_def touchDown_def)
  have 2: "isScrollableOf (closest isDraggableElem (pd_path (touchDown 1)))"
    by (simp add: isScrollableOf_def touchDown_def closest_def isDraggableElem_def
        itemElem_def listElem_def isListContainer_def)
  have 3: "pendingDrag (run abc [PointerDown (touchDown 1)]) \<noteq> None" by code_simp
  have 5: "\<not> isDragging (run abc [PointerDown (touchDown 1), PointerMove (moveTo 35 60 1300)])"
    by code_simp
  have s1: "run abc [PointerDown (touchDown 1)] =
    abc\<lparr>startY := 60, startX := 10, offsetY := 10, offsetX := 10, hasMoved := False,
       pendingDrag := Some \<lparr>p_item = Item 1, p_startY = 60, p_startX = 10, p_offsetY = 10, p_offsetX = 10\<rparr>,
       moveListeners := [HandleMove \<lparr>g_id = 0, g_isTouch = True, g_isScrollable = True, g_dragThreshold = 30, g_startTime = 1000\<rparr>],
       upListeners := [HandleUp \<lparr>g_id = 0, g_isTouch = True, g_isScrollable = True, g_dragThreshold = 30, g_startTime = 1000\<rparr>],
       nextId := 1\<rparr>"
    by (simp add: run_def handlePointerDown_def abc_def init_def touchDown_def itemElem_def listElem_def
      closest_def isInteractive_def isDraggableElem_def isListContainer_def isTouchOf_def
      isScrollableOf_def dragThresholdOf_def box_def addListener_def Let_def)
  have "run abc [PointerDown (touchDown 1), PointerMove (moveTo 35 60 1300)]
      = dispatchMove (moveTo 35 60 1300) (run abc [PointerDown (touchDown 1)])"
    by (simp add: run_def)
  also have "\<dots> = run abc [PointerDown (touchDown 1)]"
    unfolding s1 by (simp add: dispatchMove_def handleMove_def moveTo_def Let_def)
  finally have 4: "run abc [PointerDown (touchDown 1), PointerMove (moveTo 35 60 1300)]
       = run abc [PointerDown (touchDown 1)]" .
  from 1 2 3 4 5 show ?thesis by simp
qed

subsection \<open>Moves below the threshold\<close>

lemma quiet_handlePointerDown:
  assumes "idle s0"
  shows "quiet (thresholdFor e) (pd_clientX e) (pd_clientY e) (drops s0) (handlePointerDown e s0)"
  using assms
  by (auto simp: handlePointerDown_def Let_def quiet_def idle_def thresholdFor_def
      isScrollableAt_def addListener_def split: list.splits)

lemma quiet_handleMove:
  assumes "quiet thr x0 y0 D s" and "g_dragThreshold g = thr"
    and "max \<bar>pm_clientY m - y0\<bar> \<bar>pm_clientX m - x0\<bar> < thr"
  shows "quiet thr x0 y0 D (handleMove g m s)"
proof (cases "pendingDrag s")
  case None
  then show ?thesis using assms(1) by (simp add: handleMove_def)
next
  case (Some pd)
  with assms(1) have st: "p_startX pd = x0" "p_startY pd = y0" by (simp_all add: quiet_def)
  show ?thesis
    using assms Some st
    by (auto simp: handleMove_def Let_def quiet_def removeListener_def)
qed

lemma quiet_runMoveListener:
  assumes "quiet thr x0 y0 D s" and "l \<in> set (moveListeners s)"
    and "max \<bar>pm_clientY m - y0\<bar> \<bar>pm_clientX m - x0\<bar> < thr"
  shows "quiet thr x0 y0 D (runMoveListener l m s)"
proof (cases l)
  case (HandleMove g)
  with assms(1,2) have "g_dragThreshold g = thr" by (auto simp: quiet_def)
  with assms HandleMove show ?thesis by (simp add: quiet_handleMove)
next
  case HandlePointerMove
  with assms(1) show ?thesis by (simp add: handlePointerMove_def quiet_def)
qed (use assms in simp_all)

lemma quiet_dispatchMove:
  assumes "quiet thr x0 y0 D s" and "max \<bar>pm_clientY m - y0\<bar> \<bar>pm_clientX m - x0\<bar> < thr"
  shows "quiet thr x0 y0 D (dispatchMove m s)"
  unfolding dispatchMove_def
proof (rule foldl_preserves)
  fix st l
  assume "quiet thr x0 y0 D st"
  then show "quiet thr x0 y0 D (if l \<in> set (moveListeners st) then runMoveListener l m st else st)"
    using assms(2) by (simp add: quiet_runMoveListener)
qed (rule assms(1))

lemma quiet_moves:
  assumes "quiet thr x0 y0 D s"
    and "\<forall>m \<in> set ms. max \<bar>pm_clientY m - y0\<bar> \<bar>pm_clientX m - x0\<bar> < thr"
  shows "quiet thr x0 y0 D (foldl step s (map PointerMove ms))"
  using assms by (induction ms arbitrary: s) (simp_all add: quiet_dispatchMove)

lemma calm_runUpListener:
  assumes "\<not> isDragging s \<and> drops s = D"
  shows "\<not> isDragging (runUpListener l s) \<and> drops (runUpListener l s) = D"
  using assms by (cases l) (simp_all add: handleUp_def handlePointerUp_def)

lemma calm_dispatchUp:
  assumes "\<not> isDragging s \<and> drops s = D"
  shows "\<not> isDragging (dispatchUp s) \<and> drops (dispatchUp s) = D"
  unfolding dispatchUp_def
  by (rule foldl_preserves) (simp_all add: assms calm_runUpListener)

text \<open>
  When the pointer-down arrives in an idle state (no session, no pending gesture, no
  closure of an earlier gesture on \<open>document\<close>), moves whose distance from the down point
  (the larger of \<open>|\<Delta>x|\<close> and \<open>|\<Delta>y|\<close>) stays below the threshold of the gesture start no
  session and call no \<open>onDrop\<close>, and neither does the pointer-up after them. The threshold
  is 8 for input that is not touch, 20 for touch on a list that does not scroll and 30
  for touch on one that does. The times of the events are arbitrary.
\<close>

lemma below_threshold_from_idle:
  assumes "idle s0" and "\<forall>m \<in> set ms. moveDistanceFrom e m < thresholdFor e"
  shows "(\<forall>k \<le> length ms. \<not> isDragging (run s0 (PointerDown e # map PointerMove (take k ms)))
            \<and> drops (run s0 (PointerDown e # map PointerMove (take k ms))) = drops s0)
    \<and> \<not> isDragging (run s0 (PointerDown e # map PointerMove ms @ [PointerUp]))
    \<and> drops (run s0 (PointerDown e # map PointerMove ms @ [PointerUp])) = drops s0
    \<and> thresholdFor e = (if isTouchOf e then (if isScrollableAt e then 30 else 20) else 8)"
proof -
  let ?q = "quiet (thresholdFor e) (pd_clientX e) (pd_clientY e) (drops s0)"
  have q1: "?q (handlePointerDown e s0)"
    using assms(1) by (rule quiet_handlePointerDown)
  have below: "\<forall>m \<in> set ms. max \<bar>pm_clientY m - pd_clientY e\<bar> \<bar>pm_clientX m - pd_clientX e\<bar>
      < thresholdFor e"
    using assms(2) by (simp add: moveDistanceFrom_def)
  have pre: "?q (run s0 (PointerDown e # map PointerMove (take k ms)))" for k
  proof -
    have "\<forall>m \<in> set (take k ms). max \<bar>pm_clientY m - pd_clientY e\<bar> \<bar>pm_clientX m - pd_clientX e\<bar>
        < thresholdFor e"
      using below by (meson in_set_takeD)
    from quiet_moves [OF q1 this] show ?thesis by (simp add: run_def)
  qed
  have "?q (run s0 (PointerDown e # map PointerMove ms))"
    using pre [of "length ms"] by simp
  then have "\<not> isDragging (run s0 (PointerDown e # map PointerMove ms))
      \<and> drops (run s0 (PointerDown e # map PointerMove ms)) = drops s0"
    by (simp add: quiet_def)
  then have "\<not> isDragging (dispatchUp (run s0 (PointerDown e # map PointerMove ms)))
      \<and> drops (dispatchUp (run s0 (PointerDown e # map PointerMove ms))) = drops s0"
    by (rule calm_dispatchUp)
  moreover have "run s0 (PointerDown e # map PointerMove ms @ [PointerUp])
      = dispatchUp (run s0 (PointerDown e # map PointerMove ms))"
    by (simp add: run_def)
  moreover have "\<forall>k \<le> length ms. \<not> isDragging (run s0 (PointerDown e # map PointerMove (take k ms)))
            \<and> drops (run s0 (PointerDown e # map PointerMove (take k ms))) = drops s0"
    using pre by (simp add: quiet_def)
  ultimately show ?thesis
    by (simp add: thresholdFor_def dragThresholdOf_def)
qed

text \<open>A finger on a list that scrolls moves 25 pixels to the right in 300 ms and lifts.\<close>

lemma below_threshold_from_idle_example:
  "idle abc
   \<and> moveDistanceFrom (touchDown 1) (moveTo 35 60 1300) = 25
   \<and> thresholdFor (touchDown 1) = 30
   \<and> \<not> isDragging (run abc (PointerDown (touchDown 1) # map PointerMove [moveTo 35 60 1300]
         @ [PointerUp]))
   \<and> drops (run abc (PointerDown (touchDown 1) # map PointerMove [moveTo 35 60 1300]
         @ [PointerUp])) = []"
proof -
  have i: "idle abc"
    by (simp add: idle_def abc_def init_def)
  have d: "moveDistanceFrom (touchDown 1) (moveTo 35 60 1300) = 25"
    by (simp add: moveDistanceFrom_def touchDown_def moveTo_def)
  have t: "thresholdFor (touchDown 1) = 30"
    by (simp add: thresholdFor_def dragThresholdOf_def isTouchOf_def isScrollableAt_def
        isScrollableOf_def touchDown_def closest_def isDraggableElem_def isListContainer_def
        itemElem_def listElem_def)
  have b: "\<forall>m \<in> set [moveTo 35 60 1300]. moveDistanceFrom (touchDown 1) m
      < thresholdFor (touchDown 1)"
    using d t by simp
  have o: "drops abc = []"
    by (simp add: abc_def init_def)
  from below_threshold_from_idle [OF i b] i d t o show ?thesis by simp
qed

lemma finger_kind:
  "isTouchOf (fingerAt k t)" "isScrollableAt (fingerAt k t)" "thresholdFor (fingerAt k t) = 30"
  by (simp_all add: thresholdFor_def dragThresholdOf_def isTouchOf_def isScrollableAt_def
      isScrollableOf_def fingerAt_def closest_def isDraggableElem_def isListContainer_def
      itemElem_def listElem_def)

text \<open>
  C5 (no pointer-down followed only by moves below its threshold starts a drag) at a
  pointer-down that does not arrive in an idle state. \<open>handleUp\<close> is registered for
  \<open>pointerup\<close> only, so a \<open>pointercancel\<close> before promotion leaves \<open>handleMove\<close> and
  \<open>handleUp\<close> of that gesture on \<open>document\<close>, and \<open>handleMove\<close> reads the \<open>pendingDrag\<close>
  that all gestures share but tests it with the threshold of its own gesture. A pen
  goes down on \<open>Item 1\<close> and the browser cancels the pointer; its closure, with the
  threshold 8, stays. A finger then goes down on \<open>Item 1\<close> of the list, which scrolls:
  the applicable threshold is 30. It moves 25 pixels to the right, and the closure of
  the pen gesture starts a drag of \<open>Item 1\<close>. Without the cancelled gesture the same
  move starts none.
\<close>

theorem stale_closure_drags_below_threshold:
  "isTouchOf (fingerAt 1 1000) \<and> isScrollableAt (fingerAt 1 1000)
   \<and> thresholdFor (fingerAt 1 1000) = 30
   \<and> moveDistanceFrom (fingerAt 1 1000) (moveTo 35 60 1300) = 25
   \<and> moveListeners (run abc [PointerDown (penAt 1 400), PointerCancel]) = [HandleMove penGesture]
   \<and> pendingDrag (run abc [PointerDown (penAt 1 400), PointerCancel,
        PointerDown (fingerAt 1 1000)]) = Some pendingOne
   \<and> moveListeners (run abc [PointerDown (penAt 1 400), PointerCancel,
        PointerDown (fingerAt 1 1000)]) = [HandleMove penGesture, HandleMove secondFinger]
   \<and> \<not> isDragging (run abc [PointerDown (penAt 1 400), PointerCancel,
        PointerDown (fingerAt 1 1000)])
   \<and> isDragging (run abc [PointerDown (penAt 1 400), PointerCancel,
        PointerDown (fingerAt 1 1000), PointerMove (moveTo 35 60 1300)])
   \<and> draggedElement (run abc [PointerDown (penAt 1 400), PointerCancel,
        PointerDown (fingerAt 1 1000), PointerMove (moveTo 35 60 1300)]) = Some (Item 1)
   \<and> \<not> isDragging (run abc [PointerDown (fingerAt 1 1000), PointerMove (moveTo 35 60 1300)])"
proof -
  have 1: "moveDistanceFrom (fingerAt 1 1000) (moveTo 35 60 1300) = 25"
    by (simp add: moveDistanceFrom_def fingerAt_def moveTo_def)
  have 2: "moveListeners (run abc [PointerDown (penAt 1 400), PointerCancel])
      = [HandleMove penGesture]"
    by code_simp
  have 3: "pendingDrag (run abc [PointerDown (penAt 1 400), PointerCancel,
        PointerDown (fingerAt 1 1000)]) = Some pendingOne"
    by code_simp
  have 4: "moveListeners (run abc [PointerDown (penAt 1 400), PointerCancel,
        PointerDown (fingerAt 1 1000)]) = [HandleMove penGesture, HandleMove secondFinger]"
    by code_simp
  have 5: "\<not> isDragging (run abc [PointerDown (penAt 1 400), PointerCancel,
        PointerDown (fingerAt 1 1000)])"
    by code_simp
  have 6: "isDragging (run abc [PointerDown (penAt 1 400), PointerCancel,
        PointerDown (fingerAt 1 1000), PointerMove (moveTo 35 60 1300)])"
    by code_simp
  have 7: "draggedElement (run abc [PointerDown (penAt 1 400), PointerCancel,
        PointerDown (fingerAt 1 1000), PointerMove (moveTo 35 60 1300)]) = Some (Item 1)"
    by code_simp
  have 8: "\<not> isDragging (run abc [PointerDown (fingerAt 1 1000),
        PointerMove (moveTo 35 60 1300)])"
    by code_simp
  from finger_kind [of 1 1000] 1 2 3 4 5 6 7 8 show ?thesis by blast
qed

subsection \<open>A touch gesture that turns out to be a scroll\<close>

lemma foldl_noop: "(\<And>l. l \<in> set ls \<Longrightarrow> f s l = s) \<Longrightarrow> foldl f s ls = s"
  by (induction ls) simp_all

lemma waiting_handlePointerDown:
  assumes "idle s0" and "pendingDrag (handlePointerDown e s0) \<noteq> None"
  shows "waiting s0 e (handlePointerDown e s0)"
proof -
  have nm: "HandleMove (gestureOf e s0) \<notin> set (moveListeners s0)"
    and nu: "HandleUp (gestureOf e s0) \<notin> set (upListeners s0)"
    using assms(1) by (auto simp: idle_def)
  show ?thesis
    using assms nm nu
    by (auto simp: handlePointerDown_def Let_def waiting_def idle_def gestureOf_def
        thresholdFor_def isScrollableAt_def addListener_def split: list.splits if_splits)
qed

lemma idle_dispatchMove:
  assumes "idle s" shows "dispatchMove a s = s"
  unfolding dispatchMove_def
proof (rule foldl_noop)
  fix l assume "l \<in> set (moveListeners s)"
  with assms have "l = HandlePointerMove" and "\<not> isDragging s" by (simp_all add: idle_def)
  then show "(if l \<in> set (moveListeners s) then runMoveListener l a s else s) = s"
    by (simp add: handlePointerMove_def)
qed

lemma waiting_dispatchMove:
  assumes "waiting s0 e s"
  shows "dispatchMove a s = handleMove (gestureOf e s0) a s"
proof -
  let ?F = "\<lambda>st l. if l \<in> set (moveListeners st) then runMoveListener l a st else st"
  have "foldl ?F s (moveListeners s0) = s"
  proof (rule foldl_noop)
    fix l assume "l \<in> set (moveListeners s0)"
    with assms have "l = HandlePointerMove" and "\<not> isDragging s"
      by (simp_all add: waiting_def idle_def)
    then show "?F s l = s" by (simp add: handlePointerMove_def)
  qed
  moreover have "moveListeners s = moveListeners s0 @ [HandleMove (gestureOf e s0)]"
    using assms by (simp add: waiting_def)
  ultimately show ?thesis by (simp add: dispatchMove_def)
qed

lemma waiting_pending:
  assumes "waiting s0 e s"
  obtains pd where "pendingDrag s = Some pd" and "p_startX pd = pd_clientX e"
    and "p_startY pd = pd_clientY e"
  using assms by (auto simp: waiting_def split: option.splits)

lemma waiting_undecided:
  assumes "waiting s0 e s" and "isTouchOf e" and "isScrollableAt e"
    and "\<not> verticalFrom e a" and "moveDistanceFrom e a < 30"
  shows "dispatchMove a s = s"
proof -
  from assms(1) obtain pd where pd: "pendingDrag s = Some pd" "p_startX pd = pd_clientX e"
    "p_startY pd = pd_clientY e" by (rule waiting_pending)
  have g: "g_isTouch (gestureOf e s0)" "g_isScrollable (gestureOf e s0)"
    "g_dragThreshold (gestureOf e s0) = 30"
    using assms(2,3) by (simp_all add: gestureOf_def thresholdFor_def dragThresholdOf_def)
  have v: "\<not> \<bar>pm_clientY a - pd_clientY e\<bar> > \<bar>pm_clientX a - pd_clientX e\<bar> * 1.5"
    using assms(4) by (simp add: verticalFrom_def)
  have d: "max \<bar>pm_clientY a - pd_clientY e\<bar> \<bar>pm_clientX a - pd_clientX e\<bar> < 30"
    using assms(5) by (simp add: moveDistanceFrom_def)
  have "handleMove (gestureOf e s0) a s = s"
    using v d g pd by (simp add: handleMove_def Let_def)
  then show ?thesis by (simp add: waiting_dispatchMove [OF assms(1)])
qed

lemma waiting_vertical:
  assumes "waiting s0 e s" and "isTouchOf e" and "isScrollableAt e" and "verticalFrom e m"
  shows "dispatchMove m s =
     s\<lparr>pendingDrag := None, moveListeners := moveListeners s0, upListeners := upListeners s0\<rparr>"
proof -
  from assms(1) obtain pd where pd: "pendingDrag s = Some pd" "p_startX pd = pd_clientX e"
    "p_startY pd = pd_clientY e" by (rule waiting_pending)
  have g: "g_isTouch (gestureOf e s0)" "g_isScrollable (gestureOf e s0)"
    using assms(2,3) by (simp_all add: gestureOf_def)
  have v: "\<bar>pm_clientY m - pd_clientY e\<bar> > \<bar>pm_clientX m - pd_clientX e\<bar> * 1.5"
    using assms(4) by (simp add: verticalFrom_def)
  have nm: "HandleMove (gestureOf e s0) \<notin> set (moveListeners s0)"
    and nu: "HandleUp (gestureOf e s0) \<notin> set (upListeners s0)"
    using assms(1) by (auto simp: waiting_def idle_def)
  have ls: "moveListeners s = moveListeners s0 @ [HandleMove (gestureOf e s0)]"
    "upListeners s = upListeners s0 @ [HandleUp (gestureOf e s0)]"
    using assms(1) by (simp_all add: waiting_def)
  have "handleMove (gestureOf e s0) m s =
      s\<lparr>pendingDrag := None,
        moveListeners := removeListener (HandleMove (gestureOf e s0)) (moveListeners s),
        upListeners := removeListener (HandleUp (gestureOf e s0)) (upListeners s)\<rparr>"
    using v g pd by (simp add: handleMove_def Let_def)
  then show ?thesis
    using nm nu by (simp add: waiting_dispatchMove [OF assms(1)] ls removeListener_def)
qed

lemma waiting_vertical_idle:
  assumes "waiting s0 e s"
  shows "idle (s\<lparr>pendingDrag := None, moveListeners := moveListeners s0,
            upListeners := upListeners s0\<rparr>)"
  using assms by (simp add: waiting_def idle_def)

lemma waiting_moves:
  assumes "waiting s0 e s" and "isTouchOf e" and "isScrollableAt e"
    and "\<forall>a \<in> set pre. \<not> verticalFrom e a \<and> moveDistanceFrom e a < 30"
  shows "foldl step s (map PointerMove pre) = s"
  using assms by (induction pre) (simp_all add: waiting_undecided)

lemma idle_moves: "idle s \<Longrightarrow> foldl step s (map PointerMove later) = s"
  by (induction later) (simp_all add: idle_dispatchMove)

text \<open>
  When a touch pointer-down on a list that scrolls arrives in an idle state and creates
  a pending gesture, then after any moves that decide nothing (not mainly vertical,
  distance below 30) a move whose vertical displacement exceeds 1.5 times the
  horizontal one ends the gesture for good: the controller is idle again, the listeners
  on \<open>document\<close> are those from before the pointer-down, and whatever moves follow, of
  whatever distance, leave the state as it is and start no drag.
\<close>

lemma vertical_move_abandons_from_idle:
  assumes "idle s0" and "pendingDrag (step s0 (PointerDown e)) \<noteq> None"
    and "isTouchOf e" and "isScrollableAt e"
    and "\<forall>a \<in> set pre. \<not> verticalFrom e a \<and> moveDistanceFrom e a < 30"
    and "verticalFrom e m"
  shows "idle (run s0 (PointerDown e # map PointerMove (pre @ [m])))
    \<and> moveListeners (run s0 (PointerDown e # map PointerMove (pre @ [m]))) = moveListeners s0
    \<and> upListeners (run s0 (PointerDown e # map PointerMove (pre @ [m]))) = upListeners s0
    \<and> (\<forall>later. run s0 (PointerDown e # map PointerMove (pre @ [m] @ later))
          = run s0 (PointerDown e # map PointerMove (pre @ [m])))
    \<and> (\<forall>later. \<not> isDragging (run s0 (PointerDown e # map PointerMove (pre @ [m] @ later))))"
proof -
  let ?s1 = "handlePointerDown e s0"
  let ?s2 = "?s1\<lparr>pendingDrag := None, moveListeners := moveListeners s0,
      upListeners := upListeners s0\<rparr>"
  have w: "waiting s0 e ?s1"
    using assms(1,2) by (simp add: waiting_handlePointerDown)
  have pre: "foldl step ?s1 (map PointerMove pre) = ?s1"
    using w assms(3,4,5) by (rule waiting_moves)
  have r2: "run s0 (PointerDown e # map PointerMove (pre @ [m])) = ?s2"
    using pre waiting_vertical [OF w assms(3,4,6)] by (simp add: run_def)
  have i2: "idle ?s2" using w by (rule waiting_vertical_idle)
  have later: "run s0 (PointerDown e # map PointerMove (pre @ [m] @ later)) = ?s2" for later
  proof -
    have "run s0 (PointerDown e # map PointerMove (pre @ [m] @ later))
        = foldl step (run s0 (PointerDown e # map PointerMove (pre @ [m]))) (map PointerMove later)"
      by (simp add: run_def)
    also have "\<dots> = foldl step ?s2 (map PointerMove later)"
      by (simp only: r2)
    also have "\<dots> = ?s2" using i2 by (rule idle_moves)
    finally show ?thesis .
  qed
  have "\<not> isDragging ?s2" using i2 by (simp add: idle_def)
  then show ?thesis
    using i2 by (simp only: r2 later) simp
qed

text \<open>
  A finger drifts 10 pixels to the right, then goes 40 pixels down, then 190 pixels to
  the right.
\<close>

lemma vertical_move_abandons_from_idle_example:
  "idle abc
   \<and> pendingDrag (step abc (PointerDown (touchDown 1))) \<noteq> None
   \<and> isTouchOf (touchDown 1) \<and> isScrollableAt (touchDown 1)
   \<and> \<not> verticalFrom (touchDown 1) (moveTo 20 62 1100)
   \<and> moveDistanceFrom (touchDown 1) (moveTo 20 62 1100) < 30
   \<and> verticalFrom (touchDown 1) (moveTo 12 100 1200)
   \<and> idle (run abc (PointerDown (touchDown 1)
         # map PointerMove ([moveTo 20 62 1100] @ [moveTo 12 100 1200])))
   \<and> \<not> isDragging (run abc (PointerDown (touchDown 1)
         # map PointerMove ([moveTo 20 62 1100] @ [moveTo 12 100 1200] @ [moveTo 200 60 2000])))"
proof -
  have i: "idle abc"
    by (simp add: idle_def abc_def init_def)
  have p: "pendingDrag (step abc (PointerDown (touchDown 1))) \<noteq> None"
    by code_simp
  have t: "isTouchOf (touchDown 1)"
    by (simp add: isTouchOf_def touchDown_def)
  have s: "isScrollableAt (touchDown 1)"
    by (simp add: isScrollableAt_def isScrollableOf_def touchDown_def closest_def
        isDraggableElem_def isListContainer_def itemElem_def listElem_def)
  have u: "\<not> verticalFrom (touchDown 1) (moveTo 20 62 1100)"
    "moveDistanceFrom (touchDown 1) (moveTo 20 62 1100) < 30"
    by (simp_all add: verticalFrom_def moveDistanceFrom_def touchDown_def moveTo_def)
  then have pre: "\<forall>a \<in> set [moveTo 20 62 1100].
      \<not> verticalFrom (touchDown 1) a \<and> moveDistanceFrom (touchDown 1) a < 30"
    by simp
  have v: "verticalFrom (touchDown 1) (moveTo 12 100 1200)"
    by (simp add: verticalFrom_def touchDown_def moveTo_def)
  from vertical_move_abandons_from_idle [OF i p t s pre v] i p t s u v
  show ?thesis by blast
qed

text \<open>
  C4 (a mainly vertical move abandons every pending touch gesture on a list that
  scrolls, and its listeners are removed) at a gesture that does not begin in an idle
  state. The cause is the one shown above for moves below the threshold: a
  \<open>pointercancel\<close> before promotion leaves the closures of the cancelled gesture on
  \<open>document\<close>. A pen goes down on \<open>Item 1\<close> and the pointer is cancelled; a finger then
  goes down on \<open>Item 1\<close> of the list, which scrolls, and moves 40 pixels down and not
  sideways. The closure of the pen gesture, which is
  not a touch gesture, takes the branch without the test for scrolling and starts a
  drag of \<open>Item 1\<close>. When the cancelled gesture was a finger as well, its closure
  discards the pending gesture and removes itself, and the closures of the gesture
  that was abandoned stay on \<open>document\<close>.
\<close>

theorem stale_closure_drags_on_vertical_move:
  "isTouchOf (fingerAt 1 1000) \<and> isScrollableAt (fingerAt 1 1000)
   \<and> verticalFrom (fingerAt 1 1000) (moveTo 10 100 1300)
   \<and> pendingDrag (run abc [PointerDown (penAt 1 400), PointerCancel,
        PointerDown (fingerAt 1 1000)]) = Some pendingOne
   \<and> isDragging (run abc [PointerDown (penAt 1 400), PointerCancel,
        PointerDown (fingerAt 1 1000), PointerMove (moveTo 10 100 1300)])
   \<and> draggedElement (run abc [PointerDown (penAt 1 400), PointerCancel,
        PointerDown (fingerAt 1 1000), PointerMove (moveTo 10 100 1300)]) = Some (Item 1)
   \<and> pendingDrag (run abc [PointerDown (fingerAt 1 400), PointerCancel,
        PointerDown (fingerAt 1 1000), PointerMove (moveTo 10 100 1300)]) = None
   \<and> moveListeners (run abc [PointerDown (fingerAt 1 400), PointerCancel,
        PointerDown (fingerAt 1 1000), PointerMove (moveTo 10 100 1300)])
       = [HandleMove secondFinger]
   \<and> upListeners (run abc [PointerDown (fingerAt 1 400), PointerCancel,
        PointerDown (fingerAt 1 1000), PointerMove (moveTo 10 100 1300)])
       = [HandleUp secondFinger]"
proof -
  have 1: "verticalFrom (fingerAt 1 1000) (moveTo 10 100 1300)"
    by (simp add: verticalFrom_def fingerAt_def moveTo_def)
  have 2: "pendingDrag (run abc [PointerDown (penAt 1 400), PointerCancel,
        PointerDown (fingerAt 1 1000)]) = Some pendingOne"
    by code_simp
  have 3: "isDragging (run abc [PointerDown (penAt 1 400), PointerCancel,
        PointerDown (fingerAt 1 1000), PointerMove (moveTo 10 100 1300)])"
    by code_simp
  have 4: "draggedElement (run abc [PointerDown (penAt 1 400), PointerCancel,
        PointerDown (fingerAt 1 1000), PointerMove (moveTo 10 100 1300)]) = Some (Item 1)"
    by code_simp
  have 5: "pendingDrag (run abc [PointerDown (fingerAt 1 400), PointerCancel,
        PointerDown (fingerAt 1 1000), PointerMove (moveTo 10 100 1300)]) = None"
    by code_simp
  have 6: "moveListeners (run abc [PointerDown (fingerAt 1 400), PointerCancel,
        PointerDown (fingerAt 1 1000), PointerMove (moveTo 10 100 1300)])
       = [HandleMove secondFinger]"
    by code_simp
  have 7: "upListeners (run abc [PointerDown (fingerAt 1 400), PointerCancel,
        PointerDown (fingerAt 1 1000), PointerMove (moveTo 10 100 1300)])
       = [HandleUp secondFinger]"
    by code_simp
  from finger_kind(1,2) [of 1 1000] 1 2 3 4 5 6 7 show ?thesis by blast
qed

subsection \<open>Shapes of child lists\<close>

lemma nextSibling_at:
  "a \<notin> set xs \<Longrightarrow> nextSibling a (xs @ a # ys) = (case ys of [] \<Rightarrow> None | b # _ \<Rightarrow> Some b)"
proof -
  assume "a \<notin> set xs"
  then have "dropWhile (\<lambda>c. c \<noteq> a) (xs @ a # ys) = a # ys"
    by (induction xs) auto
  then show ?thesis by (simp add: nextSibling_def split: list.splits)
qed

lemma insertAt_at: "r \<notin> set xs \<Longrightarrow> insertAt n r (xs @ r # ys) = xs @ n # r # ys"
  by (induction xs) auto

lemma removeAll_dom_insertBefore: "removeAll n (dom_insertBefore n ref cs) = removeAll n cs"
proof -
  have "removeAll n (insertAt n r ds) = removeAll n ds" for r ds
    by (induction ds) auto
  then show ?thesis
    by (simp add: dom_insertBefore_def split: option.splits)
qed

lemma removeAll_dom_appendChild: "removeAll n (dom_appendChild n cs) = removeAll n cs"
  by (simp add: dom_appendChild_def)

lemma removeAll_commute: "removeAll a (removeAll b cs) = removeAll b (removeAll a cs)"
  by (induction cs) auto

text \<open>The shape of a child list after \<open>insertBefore(n, r)\<close>.\<close>

lemma dom_insertBefore_shape:
  assumes "distinct cs" and "r \<in> set cs" and "r \<noteq> n"
  obtains xs ys where "removeAll n cs = xs @ r # ys" and "r \<notin> set xs" and "r \<notin> set ys"
    and "n \<notin> set xs" and "n \<notin> set ys"
    and "dom_insertBefore n (Some r) cs = xs @ n # r # ys"
proof -
  have "r \<in> set (removeAll n cs)" using assms by simp
  then obtain xs ys where sp: "removeAll n cs = xs @ r # ys"
    by (meson split_list)
  have d: "distinct (xs @ r # ys)"
    using assms(1) sp distinct_removeAll [of cs n] by simp
  then have r: "r \<notin> set xs" "r \<notin> set ys" by auto
  have "n \<notin> set (removeAll n cs)" by simp
  then have n: "n \<notin> set xs" "n \<notin> set ys" using sp by auto
  have "dom_insertBefore n (Some r) cs = xs @ n # r # ys"
    using assms(2,3) sp r by (simp add: dom_insertBefore_def insertAt_at)
  with sp r n show ?thesis by (rule that)
qed

text \<open>After \<open>parent.insertBefore(p, d.nextSibling)\<close> the node \<open>p\<close> follows \<open>d\<close>.\<close>

lemma placeholder_follows:
  assumes "distinct cs" and "d \<in> set cs" and "p \<noteq> d"
  shows "nextSibling d (dom_insertBefore p (nextSibling d cs) cs) = Some p"
proof -
  from assms(2) obtain xs ys where sp: "cs = xs @ d # ys" by (meson split_list)
  with assms(1) have dx: "d \<notin> set xs" and dy: "d \<notin> set ys" by auto
  show ?thesis
  proof (cases ys)
    case Nil
    then have "nextSibling d cs = None" using sp dx by (simp add: nextSibling_at)
    moreover have "removeAll p cs @ [p] = removeAll p xs @ d # [p]"
      using sp Nil assms(3) by simp
    moreover have "d \<notin> set (removeAll p xs)" using dx by simp
    ultimately show ?thesis
      by (simp add: dom_insertBefore_def nextSibling_at)
  next
    case (Cons r zs)
    then have ns: "nextSibling d cs = Some r" using sp dx by (simp add: nextSibling_at)
    show ?thesis
    proof (cases "r = p")
      case True
      then show ?thesis using ns by (simp add: dom_insertBefore_def)
    next
      case False
      have rin: "r \<in> set cs" using sp Cons by simp
      have rx: "r \<notin> set xs" and rd: "r \<noteq> d" using assms(1) sp Cons by auto
      have "removeAll p cs = (removeAll p xs @ [d]) @ r # removeAll p zs"
        using sp Cons assms(3) False by simp
      moreover have "r \<notin> set (removeAll p xs @ [d])" using rx rd by simp
      ultimately have "insertAt p r (removeAll p cs) = (removeAll p xs @ [d]) @ p # r # removeAll p zs"
        using insertAt_at [of r "removeAll p xs @ [d]" p "removeAll p zs"] by simp
      then have "dom_insertBefore p (Some r) cs = removeAll p xs @ d # p # r # removeAll p zs"
        using rin False by (simp add: dom_insertBefore_def)
      moreover have "d \<notin> set (removeAll p xs)" using dx by simp
      ultimately show ?thesis using ns by (simp add: nextSibling_at)
    qed
  qed
qed

text \<open>Moving \<open>p\<close> to another place than between \<open>a\<close> and \<open>b\<close> keeps \<open>b\<close> next to \<open>a\<close>.\<close>

lemma nextSibling_kept:
  assumes "distinct cs" and "nextSibling a cs = Some b" and "p \<noteq> a" and "p \<noteq> b"
    and "ref \<noteq> Some b"
  shows "nextSibling a (dom_insertBefore p ref cs) = Some b"
proof -
  from assms(2) obtain xs ys where sp: "cs = xs @ a # b # ys" and ax: "a \<notin> set xs"
  proof -
    from assms(2) obtain x rest where dw: "dropWhile (\<lambda>c. c \<noteq> a) cs = x # b # rest"
      by (auto simp: nextSibling_def split: list.splits)
    then have "x = a" using hd_dropWhile [of "\<lambda>c. c \<noteq> a" cs] by auto
    have "cs = takeWhile (\<lambda>c. c \<noteq> a) cs @ dropWhile (\<lambda>c. c \<noteq> a) cs" by simp
    then have "cs = takeWhile (\<lambda>c. c \<noteq> a) cs @ a # b # rest" using dw \<open>x = a\<close> by simp
    moreover have "a \<notin> set (takeWhile (\<lambda>c. c \<noteq> a) cs)" by (auto dest: set_takeWhileD)
    ultimately show ?thesis by (rule that)
  qed
  have dist: "distinct (xs @ a # b # ys)" using assms(1) sp by simp
  have rm: "removeAll p cs = removeAll p xs @ a # b # removeAll p ys"
    using sp assms(3,4) by simp
  have ax': "a \<notin> set (removeAll p xs)" using ax by simp
  show ?thesis
  proof (cases ref)
    case None
    then show ?thesis using rm ax' by (simp add: dom_insertBefore_def nextSibling_at)
  next
    case (Some r)
    show ?thesis
    proof (cases "r \<notin> set cs \<or> r = p")
      case True
      then show ?thesis using Some assms(2) by (simp add: dom_insertBefore_def)
    next
      case False
      then have rin: "r \<in> set cs" and rp: "r \<noteq> p" by simp_all
      have rb: "r \<noteq> b" using assms(5) Some by simp
      have res: "dom_insertBefore p ref cs = insertAt p r (removeAll p cs)"
        using Some False by (simp add: dom_insertBefore_def)
      consider "r \<in> set xs" | "r = a" | "r \<in> set ys" using rin rb sp by auto
      then show ?thesis
      proof cases
        case 1
        then obtain u v where uv: "xs = u @ r # v" by (meson split_list)
        have ru: "r \<notin> set (removeAll p u)" using dist uv by auto
        have "removeAll p cs = removeAll p u @ r # (removeAll p v @ a # b # removeAll p ys)"
          using rm uv rp by simp
        then have "insertAt p r (removeAll p cs)
            = (removeAll p u @ p # r # removeAll p v) @ a # b # removeAll p ys"
          using ru by (simp add: insertAt_at)
        moreover have au: "a \<notin> set u" "a \<notin> set v" "a \<noteq> r"
          using ax uv by auto
        ultimately show ?thesis
          using res assms(3)
            nextSibling_at [of a "removeAll p u @ p # r # removeAll p v" "b # removeAll p ys"]
          by auto
      next
        case 2
        have "insertAt p r (removeAll p cs) = (removeAll p xs @ [p]) @ a # b # removeAll p ys"
          using rm 2 ax' by (simp add: insertAt_at)
        moreover have "a \<notin> set (removeAll p xs @ [p])" using ax assms(3) by auto
        ultimately show ?thesis
          using res nextSibling_at [of a "removeAll p xs @ [p]" "b # removeAll p ys"] by simp
      next
        case 3
        then obtain u v where uv: "ys = u @ r # v" by (meson split_list)
        have "removeAll p cs = (removeAll p xs @ a # b # removeAll p u) @ r # removeAll p v"
          using rm uv rp by simp
        moreover have "r \<notin> set (removeAll p xs @ a # b # removeAll p u)"
          using dist uv by auto
        ultimately have "insertAt p r (removeAll p cs)
            = (removeAll p xs @ a # b # removeAll p u) @ p # r # removeAll p v"
          using insertAt_at [of r "removeAll p xs @ a # b # removeAll p u" p "removeAll p v"]
          by simp
        then have "insertAt p r (removeAll p cs)
            = removeAll p xs @ a # b # (removeAll p u @ p # r # removeAll p v)" by simp
        then show ?thesis using res ax' by (simp add: nextSibling_at)
      qed
    qed
  qed
qed

lemma nextSibling_split:
  assumes "nextSibling a cs = Some b"
  obtains xs ys where "cs = xs @ a # b # ys" and "a \<notin> set xs"
proof -
  from assms obtain x rest where dw: "dropWhile (\<lambda>c. c \<noteq> a) cs = x # b # rest"
    by (auto simp: nextSibling_def split: list.splits)
  then have "x = a" using hd_dropWhile [of "\<lambda>c. c \<noteq> a" cs] by auto
  have "cs = takeWhile (\<lambda>c. c \<noteq> a) cs @ dropWhile (\<lambda>c. c \<noteq> a) cs" by simp
  then have "cs = takeWhile (\<lambda>c. c \<noteq> a) cs @ a # b # rest" using dw \<open>x = a\<close> by simp
  moreover have "a \<notin> set (takeWhile (\<lambda>c. c \<noteq> a) cs)" by (auto dest: set_takeWhileD)
  ultimately show ?thesis by (rule that)
qed

lemma nextSibling_last:
  assumes "a \<in> set cs" and "nextSibling a cs = None"
  obtains xs where "cs = xs @ [a]" and "a \<notin> set xs"
proof -
  from assms(1) obtain xs ys where sp: "cs = xs @ a # ys" and ax: "a \<notin> set xs"
    by (meson split_list_first)
  with assms(2) have "ys = []" by (cases ys) (simp_all add: nextSibling_at)
  with sp ax show ?thesis by (simp add: that)
qed

lemma nextSibling_not_self: "distinct cs \<Longrightarrow> nextSibling a cs \<noteq> Some a"
proof
  assume d: "distinct cs" and n: "nextSibling a cs = Some a"
  from n obtain xs ys where "cs = xs @ a # a # ys" by (rule nextSibling_split)
  with d show False by simp
qed

lemma set_dom_insertBefore_keeps: "set cs \<subseteq> set (dom_insertBefore n ref cs)"
proof -
  have "r \<in> set ds \<Longrightarrow> set (insertAt n r ds) = insert n (set ds)" for r ds
    by (induction ds) auto
  then show ?thesis
    by (auto simp: dom_insertBefore_def split: option.splits)
qed

lemma dom_insertBefore_mem: "r \<in> set cs \<Longrightarrow> n \<in> set (dom_insertBefore n (Some r) cs)"
proof -
  have i: "r \<in> set ds \<Longrightarrow> set (insertAt n r ds) = insert n (set ds)" for r ds
    by (induction ds) auto
  assume "r \<in> set cs"
  then show ?thesis
    using i [of r "removeAll n cs"] by (auto simp: dom_insertBefore_def)
qed

text \<open>After \<open>insertBefore(d, h)\<close> the node \<open>d\<close> is just before \<open>h\<close>.\<close>

lemma insertBefore_adjacent:
  assumes "distinct cs" and "h \<in> set cs" and "h \<noteq> d"
  shows "nextSibling d (dom_insertBefore d (Some h) cs) = Some h"
proof -
  from assms obtain xs ys where "dom_insertBefore d (Some h) cs = xs @ d # h # ys"
    and "d \<notin> set xs"
    by (rule dom_insertBefore_shape)
  then show ?thesis by (simp add: nextSibling_at)
qed

text \<open>The after side: \<open>d\<close> ends up just after \<open>h\<close>.\<close>

lemma after_side_adjacent:
  assumes "distinct cs" and "h \<in> set cs" and "h \<noteq> d"
  shows "nextSibling h (case nextSibling h cs of
            Some n \<Rightarrow> dom_insertBefore d (Some n) cs
          | None \<Rightarrow> dom_appendChild d cs) = Some d"
proof (cases "nextSibling h cs")
  case None
  with assms(2) obtain xs where sp: "cs = xs @ [h]" and hx: "h \<notin> set xs"
    by (rule nextSibling_last)
  have "dom_appendChild d cs = removeAll d xs @ h # [d]"
    using sp assms(3) by (simp add: dom_appendChild_def)
  moreover have "h \<notin> set (removeAll d xs)" using hx by simp
  ultimately show ?thesis using None by (simp add: nextSibling_at)
next
  case (Some n)
  then obtain xs ys where sp: "cs = xs @ h # n # ys" and hx: "h \<notin> set xs"
    by (rule nextSibling_split)
  show ?thesis
  proof (cases "n = d")
    case True
    then show ?thesis using Some by (simp add: dom_insertBefore_def)
  next
    case False
    have nin: "n \<in> set cs" using sp by simp
    have nx: "n \<notin> set xs" "n \<noteq> h" using assms(1) sp by auto
    have "removeAll d cs = (removeAll d xs @ [h]) @ n # removeAll d ys"
      using sp assms(3) False by simp
    moreover have "n \<notin> set (removeAll d xs @ [h])" using nx by simp
    ultimately have "insertAt d n (removeAll d cs) = (removeAll d xs @ [h]) @ d # n # removeAll d ys"
      using insertAt_at [of n "removeAll d xs @ [h]" d "removeAll d ys"] by simp
    then have "dom_insertBefore d (Some n) cs = removeAll d xs @ h # d # n # removeAll d ys"
      using nin False by (simp add: dom_insertBefore_def)
    moreover have "h \<notin> set (removeAll d xs)" using hx by simp
    ultimately show ?thesis using Some by (simp add: nextSibling_at)
  qed
qed

lemma nth_indexOf:
  "x \<in> set xs \<Longrightarrow> xs ! length (takeWhile (\<lambda>z. z \<noteq> x) xs) = x"
  by (induction xs) auto

lemma indexOf_same:
  assumes "x \<in> set xs" and "y \<in> set xs" and "indexOf x xs = indexOf y xs"
  shows "x = y"
proof -
  have "length (takeWhile (\<lambda>z. z \<noteq> x) xs) = length (takeWhile (\<lambda>z. z \<noteq> y) xs)"
    using assms by (simp add: indexOf_def)
  then have "xs ! length (takeWhile (\<lambda>z. z \<noteq> x) xs) = xs ! length (takeWhile (\<lambda>z. z \<noteq> y) xs)"
    by simp
  then show ?thesis using assms(1,2) by (simp add: nth_indexOf)
qed

subsection \<open>The placeholder stays in the container\<close>

lemma dom_insertBefore_sibling_mem:
  "n \<in> set (dom_insertBefore n (nextSibling a cs) cs)"
proof (cases "nextSibling a cs")
  case None
  then show ?thesis by (simp add: dom_insertBefore_def)
next
  case (Some r)
  then have rin: "r \<in> set cs" by (rule nextSibling_in_set)
  show ?thesis
  proof (cases "r = n")
    case True
    then show ?thesis using Some rin by (simp add: dom_insertBefore_def)
  next
    case False
    then show ?thesis using Some rin dom_insertBefore_mem [of r cs n] by simp
  qed
qed

lemma hoverReorder_keeps:
  assumes "p \<in> set cs"
  shows "p \<in> set (hoverReorder f hz x y d p h cs)"
proof -
  define cs1 where "cs1 = (case insertBeforeOf f hz x y h cs of
      Some r \<Rightarrow> if r \<noteq> d then dom_insertBefore d (Some r) cs else cs
    | None \<Rightarrow> dom_appendChild d cs)"
  define res where "res = (if p \<in> set cs1 \<and> nextSibling d cs1 \<noteq> Some p
      then dom_insertBefore p (nextSibling d cs1) cs1 else cs1)"
  have eq: "hoverReorder f hz x y d p h cs =
      (if indexOf h (filter hasDraggable cs) \<noteq> - 1 \<and> indexOf d (filter hasDraggable cs) \<noteq> - 1
          \<and> indexOf h (filter hasDraggable cs) \<noteq> indexOf d (filter hasDraggable cs)
       then res else cs)"
    by (simp add: hoverReorder_def Let_def cs1_def res_def)
  have "p \<in> set cs1"
    using assms set_dom_insertBefore_keeps [of cs d]
    by (auto simp: cs1_def set_dom_appendChild split: option.splits)
  then have "p \<in> set res"
    by (simp add: res_def dom_insertBefore_sibling_mem)
  then show ?thesis unfolding eq using assms by simp
qed

lemma edgeReorder_keeps: "p \<in> set cs \<Longrightarrow> p \<in> set (edgeReorder f hz x y d p cs)"
  by (simp add: edgeReorder_def Let_def dom_insertBefore_sibling_mem)

lemma placed_updateDragPosition:
  assumes "placed s" shows "placed (updateDragPosition f x y s)"
proof (cases "isDragging s")
  case False
  then show ?thesis
    by (auto simp: placed_def updateDragPosition_def Let_def split: option.splits)
next
  case True
  with assms obtain p where p: "placeholder s = Some p" "p \<in> set (children s)" "isPlaceholder p"
    by (auto simp: placed_def)
  then show ?thesis
    using True
    by (auto simp: placed_def updateDragPosition_def Let_def hoverReorder_keeps edgeReorder_keeps
        split: option.splits)
qed

lemma placed_startDrag: "placed s \<Longrightarrow> placed (startDrag item s)"
  by (auto simp: placed_def startDrag_def Let_def getDraggableItems_def
      dom_insertBefore_sibling_mem)

lemma placed_fields:
  assumes "placed s" and "isDragging t = isDragging s" and "placeholder t = placeholder s"
    and "children t = children s"
  shows "placed t"
  using assms by (auto simp: placed_def)

lemma placed_promote: "placed s \<Longrightarrow> placed (promote g pd s)"
proof -
  assume "placed s"
  then have "placed (s\<lparr>hasMoved := True\<rparr>)" by (rule placed_fields) simp_all
  then have "placed (startDrag (p_item pd) (s\<lparr>hasMoved := True\<rparr>))" by (rule placed_startDrag)
  then show ?thesis by (rule placed_fields) (simp_all add: promote_def Let_def)
qed

lemma placed_handleMove:
  assumes "placed s" shows "placed (handleMove g e s)"
proof -
  have a: "placed (s\<lparr>pendingDrag := None,
      moveListeners := removeListener (HandleMove g) (moveListeners s),
      upListeners := removeListener (HandleUp g) (upListeners s)\<rparr>)"
    using assms by (rule placed_fields) simp_all
  show ?thesis
    using assms a placed_promote [OF assms, of g]
    by (simp add: handleMove_def Let_def split: option.splits)
qed

lemma placed_runMoveListener:
  assumes "placed s" shows "placed (runMoveListener l e s)"
proof (cases l)
  case (HandleMove g)
  then show ?thesis using assms by (simp add: placed_handleMove)
next
  case HandlePointerMove
  have "placed (s\<lparr>animationFrameId := Some (pm_clientX e, pm_clientY e)\<rparr>)"
    using assms by (rule placed_fields) simp_all
  then show ?thesis using assms HandlePointerMove by (simp add: handlePointerMove_def)
qed (use assms in simp_all)

lemma placed_runUpListener:
  assumes "placed s" shows "placed (runUpListener l s)"
proof (cases l)
  case (HandleUp g)
  have "placed (handleUp g s)" using assms by (rule placed_fields) (simp_all add: handleUp_def)
  then show ?thesis using HandleUp by simp
next
  case HandlePointerUp
  show ?thesis
  proof (cases "isDragging s")
    case True
    then have "\<not> isDragging (handlePointerUp s)" by (simp add: handlePointerUp_fields)
    then show ?thesis using HandlePointerUp by (simp add: placed_def)
  next
    case False
    then show ?thesis using assms HandlePointerUp by (simp add: handlePointerUp_def)
  qed
qed (use assms in simp_all)

lemma placed_step:
  assumes "placed s" and "leavesPlaceholder ev"
  shows "placed (step s ev)"
proof (cases ev)
  case (PointerDown e)
  have "placed (handlePointerDown e s)"
    using assms(1) by (rule placed_fields)
      (simp_all add: handlePointerDown_def Let_def split: list.splits)
  then show ?thesis using PointerDown by simp
next
  case (PointerMove e)
  have "placed (dispatchMove e s)"
    unfolding dispatchMove_def
    by (rule foldl_preserves) (simp_all add: assms(1) placed_runMoveListener)
  then show ?thesis using PointerMove by simp
next
  case PointerUp
  have "placed (dispatchUp s)"
    unfolding dispatchUp_def
    by (rule foldl_preserves) (simp_all add: assms(1) placed_runUpListener)
  then show ?thesis using PointerUp by simp
next
  case PointerCancel
  have "placed (dispatchCancel s)"
    unfolding dispatchCancel_def
    by (rule foldl_preserves) (simp_all add: assms(1) placed_runUpListener)
  then show ?thesis using PointerCancel by simp
next
  case (AnimationFrame f)
  show ?thesis
  proof (cases "animationFrameId s")
    case None
    then show ?thesis using assms(1) AnimationFrame by (simp add: runFrame_def)
  next
    case (Some xy)
    obtain x y where xy: "xy = (x, y)" by (cases xy)
    have "placed (updateDragPosition f x y s)" using assms(1) by (rule placed_updateDragPosition)
    then have "placed ((updateDragPosition f x y s)\<lparr>animationFrameId := None\<rparr>)"
      by (rule placed_fields) simp_all
    then show ?thesis using AnimationFrame Some xy by (simp add: runFrame_def)
  qed
next
  case (Update a b)
  show ?thesis
  proof (cases "a \<and> isDragging s")
    case True
    then show ?thesis using Update by (simp add: update_def placed_def)
  next
    case False
    have "placed (s\<lparr>disabled := a, handle := b\<rparr>)"
      using assms(1) by (rule placed_fields) simp_all
    then show ?thesis using Update False by (auto simp: update_def)
  qed
next
  case (ExternalRemove n)
  then show ?thesis
    using assms by (auto simp: placed_def externalRemove_def)
qed

text \<open>
  The controller itself never takes the placeholder of an active session out of the
  container: it is there unless the caller removes it.
\<close>

lemma placeholder_stays:
  assumes "\<forall>ev \<in> set evs. leavesPlaceholder ev"
  shows "placed (run (init cs sty cls dis hdl) evs)"
proof -
  have "placed (init cs sty cls dis hdl)" by (simp add: placed_def init_def)
  moreover have "placed s \<Longrightarrow> \<forall>ev \<in> set evs. leavesPlaceholder ev \<Longrightarrow> placed (foldl step s evs)"
    for s
    by (induction evs arbitrary: s) (simp_all add: placed_step)
  ultimately show ?thesis using assms by (simp add: run_def)
qed

subsection \<open>Reordering over a hovered item\<close>

lemma insertBeforeOf_sides:
  "insertBeforeOf f (layoutHorizontal f) x y h cs =
     (if beforeSide f x y h then Some h else nextSibling h cs)"
  by (simp add: insertBeforeOf_def beforeSide_def Let_def)

lemma hoverReorder_spec:
  assumes "d \<in> set (filter hasDraggable cs)" and "h \<in> set (filter hasDraggable cs)"
    and "h \<noteq> d" and "p \<in> set cs"
  shows "hoverReorder f (layoutHorizontal f) x y d p h cs = spec_hoverReorder f x y d p h cs"
proof -
  let ?cs1 = "if beforeSide f x y h then dom_insertBefore d (Some h) cs
      else (case nextSibling h cs of
              Some n \<Rightarrow> dom_insertBefore d (Some n) cs
            | None \<Rightarrow> dom_appendChild d cs)"
  have idx: "indexOf h (filter hasDraggable cs) \<noteq> - 1" "indexOf d (filter hasDraggable cs) \<noteq> - 1"
    "indexOf h (filter hasDraggable cs) \<noteq> indexOf d (filter hasDraggable cs)"
    using assms(1,2,3) indexOf_same [of h "filter hasDraggable cs" d]
    by (auto simp: indexOf_minus1)
  have same: "(case insertBeforeOf f (layoutHorizontal f) x y h cs of
        Some r \<Rightarrow> if r \<noteq> d then dom_insertBefore d (Some r) cs else cs
      | None \<Rightarrow> dom_appendChild d cs) = ?cs1"
    using assms(3)
    by (auto simp: insertBeforeOf_sides dom_insertBefore_def split: option.splits)
  have "p \<in> set ?cs1"
    using assms(4) set_dom_insertBefore_keeps [of cs d]
    by (auto simp: set_dom_appendChild split: option.splits)
  then show ?thesis
    unfolding hoverReorder_def spec_hoverReorder_def Let_def same
    using idx by simp
qed

lemma spec_hoverReorder_facts:
  assumes "distinct cs" and "d \<in> set cs" and "h \<in> set cs" and "h \<noteq> d" and "p \<noteq> d"
    and "p \<noteq> h"
  shows "nextSibling d (spec_hoverReorder f x y d p h cs) = Some p"
    and "beforeSide f x y h \<Longrightarrow> nextSibling p (spec_hoverReorder f x y d p h cs) = Some h"
    and "\<not> beforeSide f x y h \<Longrightarrow> nextSibling h (spec_hoverReorder f x y d p h cs) = Some d"
    and "removeAll d (removeAll p (spec_hoverReorder f x y d p h cs))
          = removeAll d (removeAll p cs)"
proof -
  define after where "after = (case nextSibling h cs of
              Some n \<Rightarrow> dom_insertBefore d (Some n) cs
            | None \<Rightarrow> dom_appendChild d cs)"
  define cs1 where "cs1 = (if beforeSide f x y h then dom_insertBefore d (Some h) cs else after)"
  define res where "res = spec_hoverReorder f x y d p h cs"
  have res: "res = (if nextSibling d cs1 = Some p then cs1
      else dom_insertBefore p (nextSibling d cs1) cs1)"
    by (simp add: res_def cs1_def after_def spec_hoverReorder_def Let_def)
  have da: "distinct after" and ma: "d \<in> set after" and ra: "removeAll d after = removeAll d cs"
    using assms(1,2) set_dom_insertBefore_keeps [of cs d]
    by (auto simp: after_def distinct_dom_insertBefore distinct_dom_appendChild
        set_dom_appendChild removeAll_dom_insertBefore removeAll_dom_appendChild
        split: option.splits)
  have db: "distinct (dom_insertBefore d (Some h) cs)"
    and mb: "d \<in> set (dom_insertBefore d (Some h) cs)"
    and rb: "removeAll d (dom_insertBefore d (Some h) cs) = removeAll d cs"
    using assms(1,2) set_dom_insertBefore_keeps [of cs d "Some h"]
    by (auto simp: distinct_dom_insertBefore removeAll_dom_insertBefore)
  have d1: "distinct cs1" and m1: "d \<in> set cs1" and r1: "removeAll d cs1 = removeAll d cs"
    using da ma ra db mb rb by (simp_all add: cs1_def)
  have follows: "nextSibling d res = Some p"
    unfolding res using placeholder_follows [OF d1 m1 assms(5)] by simp
  have before: "nextSibling p res = Some h" if b: "beforeSide f x y h"
  proof -
    have c1: "cs1 = dom_insertBefore d (Some h) cs" using b by (simp add: cs1_def)
    have ns: "nextSibling d cs1 = Some h"
      unfolding c1 using assms(1,3,4) by (rule insertBefore_adjacent)
    have hin: "h \<in> set cs1"
      using assms(3) set_dom_insertBefore_keeps [of cs d "Some h"] c1 by auto
    have "res = dom_insertBefore p (Some h) cs1"
      unfolding res using ns assms(6) by simp
    moreover have "nextSibling p (dom_insertBefore p (Some h) cs1) = Some h"
      using d1 hin assms(6) [symmetric] by (rule insertBefore_adjacent)
    ultimately show ?thesis by simp
  qed
  have afterwards: "nextSibling h res = Some d" if nb: "\<not> beforeSide f x y h"
  proof -
    have c1: "cs1 = after" using nb by (simp add: cs1_def)
    have hd: "nextSibling h cs1 = Some d"
      unfolding c1 after_def using assms(1,3,4) by (rule after_side_adjacent)
    show ?thesis
    proof (cases "nextSibling d cs1 = Some p")
      case True
      then show ?thesis unfolding res using hd by simp
    next
      case False
      have nd: "nextSibling d cs1 \<noteq> Some d" using d1 by (rule nextSibling_not_self)
      have "nextSibling h (dom_insertBefore p (nextSibling d cs1) cs1) = Some d"
        using d1 hd assms(6) assms(5) nd by (rule nextSibling_kept)
      then show ?thesis unfolding res using False by simp
    qed
  qed
  have "removeAll p res = removeAll p cs1"
    unfolding res by (simp add: removeAll_dom_insertBefore)
  then have "removeAll d (removeAll p res) = removeAll d (removeAll p cs1)" by simp
  also have "\<dots> = removeAll p (removeAll d cs1)" by (rule removeAll_commute)
  also have "\<dots> = removeAll p (removeAll d cs)" by (simp only: r1)
  also have "\<dots> = removeAll d (removeAll p cs)" by (rule removeAll_commute)
  finally have others: "removeAll d (removeAll p res) = removeAll d (removeAll p cs)" .
  show "nextSibling d (spec_hoverReorder f x y d p h cs) = Some p"
    using follows by (simp only: res_def)
  show "beforeSide f x y h \<Longrightarrow> nextSibling p (spec_hoverReorder f x y d p h cs) = Some h"
    using before by (simp add: res_def)
  show "\<not> beforeSide f x y h \<Longrightarrow> nextSibling h (spec_hoverReorder f x y d p h cs) = Some d"
    using afterwards by (simp add: res_def)
  show "removeAll d (removeAll p (spec_hoverReorder f x y d p h cs))
          = removeAll d (removeAll p cs)"
    using others by (simp only: res_def)
qed

lemma dragging_refs:
  assumes "sessionInv s" and "isDragging s"
  obtains g p d where "ghostElement s = Some g" and "placeholder s = Some p"
    and "draggedElement s = Some d" and "isPlaceholder p" and "hasDraggable d"
    and "distinct (children s)" and "p \<noteq> d"
proof -
  from assms obtain g p d where r: "ghostElement s = Some g" "placeholder s = Some p"
    "draggedElement s = Some d" "isPlaceholder p" "hasDraggable d" "okKids p (children s)"
    by (auto simp: sessionInv_def split: option.splits)
  then have "distinct (children s)" by (simp add: okKids_def)
  moreover have "p \<noteq> d" using r(4,5) item_not_placeholder by blast
  ultimately show ?thesis using r by (intro that)
qed

lemma hoverReorder_detached:
  assumes "d \<in> set (filter hasDraggable cs)" and "h \<in> set (filter hasDraggable cs)"
    and "h \<noteq> d" and "p \<notin> set cs" and "p \<noteq> d"
  shows "hoverReorder f (layoutHorizontal f) x y d p h cs = spec_moveDragged f x y d h cs"
proof -
  have idx: "indexOf h (filter hasDraggable cs) \<noteq> - 1" "indexOf d (filter hasDraggable cs) \<noteq> - 1"
    "indexOf h (filter hasDraggable cs) \<noteq> indexOf d (filter hasDraggable cs)"
    using assms(1,2,3) indexOf_same [of h "filter hasDraggable cs" d]
    by (auto simp: indexOf_minus1)
  have same: "(case insertBeforeOf f (layoutHorizontal f) x y h cs of
        Some r \<Rightarrow> if r \<noteq> d then dom_insertBefore d (Some r) cs else cs
      | None \<Rightarrow> dom_appendChild d cs) = spec_moveDragged f x y d h cs"
    using assms(3)
    by (auto simp: spec_moveDragged_def insertBeforeOf_sides dom_insertBefore_def
        split: option.splits)
  have "set (spec_moveDragged f x y d h cs) \<subseteq> insert d (set cs)"
    using set_dom_insertBefore [of d _ cs]
    by (auto simp: spec_moveDragged_def set_dom_appendChild split: option.splits)
  then have "p \<notin> set (spec_moveDragged f x y d h cs)"
    using assms(4,5) by auto
  then show ?thesis
    unfolding hoverReorder_def Let_def same
    using idx by simp
qed

lemma spec_moveDragged_facts:
  assumes "distinct cs" and "h \<in> set cs" and "h \<noteq> d"
  shows "beforeSide f x y h \<Longrightarrow> nextSibling d (spec_moveDragged f x y d h cs) = Some h"
    and "\<not> beforeSide f x y h \<Longrightarrow> nextSibling h (spec_moveDragged f x y d h cs) = Some d"
    and "removeAll d (spec_moveDragged f x y d h cs) = removeAll d cs"
    and "set (spec_moveDragged f x y d h cs) \<subseteq> insert d (set cs)"
proof -
  show "beforeSide f x y h \<Longrightarrow> nextSibling d (spec_moveDragged f x y d h cs) = Some h"
    using insertBefore_adjacent [OF assms] by (simp add: spec_moveDragged_def)
  show "\<not> beforeSide f x y h \<Longrightarrow> nextSibling h (spec_moveDragged f x y d h cs) = Some d"
    using after_side_adjacent [OF assms] by (simp add: spec_moveDragged_def)
  show "removeAll d (spec_moveDragged f x y d h cs) = removeAll d cs"
    by (simp add: spec_moveDragged_def removeAll_dom_insertBefore removeAll_dom_appendChild
        split: option.splits)
  show "set (spec_moveDragged f x y d h cs) \<subseteq> insert d (set cs)"
    using set_dom_insertBefore [of d _ cs]
    by (auto simp: spec_moveDragged_def set_dom_appendChild split: option.splits)
qed

text \<open>
  C6, as the code has it. The controller has reached a state with an active session on
  the item \<open>d\<close> with the placeholder \<open>p\<close>. A position update finds the hovered item \<open>h\<close>,
  which is neither \<open>d\<close> nor \<open>p\<close>, and both \<open>h\<close> and \<open>d\<close> are among the draggable children
  (then their indices differ). The side is decided by the pointer's X and the horizontal middle of
  \<open>h\<close> in a horizontal layout, by its Y and the vertical middle otherwise. When \<open>p\<close> is a
  child of the container, the child list after the update is the one the specification
  describes (\<open>spec_hoverReorder\<close>) and \<open>p\<close> is the next sibling of \<open>d\<close>. When the caller
  has taken \<open>p\<close> out of the container, only the dragged item is moved
  (\<open>spec_moveDragged\<close>) and \<open>p\<close> stays out. In both cases, on the before side \<open>h\<close> comes
  right after the dragged item (and after the placeholder that follows it), on the
  after side \<open>d\<close> is the next sibling of \<open>h\<close>, and the other children keep their order.
  The controller itself never takes the placeholder out (\<open>placeholder_stays\<close>).
\<close>

theorem hovered_item_reorder:
  assumes "cleanKids cs" and "s = run (init cs sty cls dis hdl) evs"
    and "isDragging s" and "draggedElement s = Some d" and "placeholder s = Some p"
    and "getElementUnderPoint f = Some h" and "h \<noteq> d" and "h \<noteq> p"
    and "indexOf h (getDraggableItems s) \<noteq> - 1"
    and "indexOf d (getDraggableItems s) \<noteq> - 1"
  shows "children (updateDragPosition f x y s)
        = (if p \<in> set (children s) then spec_hoverReorder f x y d p h (children s)
           else spec_moveDragged f x y d h (children s))
    \<and> (p \<in> set (children s) \<longrightarrow> nextSibling d (children (updateDragPosition f x y s)) = Some p)
    \<and> (p \<notin> set (children s) \<longrightarrow> p \<notin> set (children (updateDragPosition f x y s)))
    \<and> (beforeSide f x y h \<longrightarrow>
          nextSibling (if p \<in> set (children s) then p else d)
            (children (updateDragPosition f x y s)) = Some h)
    \<and> (\<not> beforeSide f x y h \<longrightarrow> nextSibling h (children (updateDragPosition f x y s)) = Some d)
    \<and> removeAll d (removeAll p (children (updateDragPosition f x y s)))
        = removeAll d (removeAll p (children s))"
proof -
  have inv: "sessionInv s"
    using assms(1,2) by (simp add: sessionInv_run sessionInv_init)
  from inv assms(3) obtain g p' d' where refs: "ghostElement s = Some g" "placeholder s = Some p'"
    "draggedElement s = Some d'" "distinct (children s)" "p' \<noteq> d'"
    by (rule dragging_refs)
  with assms(4,5) have pd: "p \<noteq> d" by simp
  have hm: "h \<in> set (filter hasDraggable (children s))"
    and dm: "d \<in> set (filter hasDraggable (children s))"
    using assms(9,10) by (simp_all add: indexOf_minus1 getDraggableItems_def)
  have hin: "h \<in> set (children s)" and din: "d \<in> set (children s)"
    using hm dm by simp_all
  have upd: "children (updateDragPosition f x y s)
      = hoverReorder f (layoutHorizontal f) x y d p h (children s)"
    using refs(1) assms(4,5,6,7,8) by (simp add: updateDragPosition_def Let_def)
  show ?thesis
  proof (cases "p \<in> set (children s)")
    case True
    have eq: "children (updateDragPosition f x y s) = spec_hoverReorder f x y d p h (children s)"
      unfolding upd using dm hm assms(7) True by (rule hoverReorder_spec)
    note facts = spec_hoverReorder_facts [OF refs(4) din hin assms(7) pd assms(8) [symmetric], of f x y]
    show ?thesis
      unfolding eq using True facts by simp
  next
    case False
    have eq: "children (updateDragPosition f x y s) = spec_moveDragged f x y d h (children s)"
      unfolding upd using dm hm assms(7) False pd by (rule hoverReorder_detached)
    note facts = spec_moveDragged_facts [OF refs(4) hin assms(7), of f x y]
    have out: "p \<notin> set (spec_moveDragged f x y d h (children s))"
      using facts(4) False pd by auto
    have "removeAll d (removeAll p (spec_moveDragged f x y d h (children s)))
        = removeAll p (removeAll d (spec_moveDragged f x y d h (children s)))"
      by (rule removeAll_commute)
    also have "\<dots> = removeAll p (removeAll d (children s))" by (simp only: facts(3))
    also have "\<dots> = removeAll d (removeAll p (children s))" by (rule removeAll_commute)
    finally have others: "removeAll d (removeAll p (spec_moveDragged f x y d h (children s)))
        = removeAll d (removeAll p (children s))" .
    show ?thesis
      unfolding eq using False facts(1,2) out others by simp
  qed
qed

text \<open>
  \<open>Item 0\<close> of three stacked items is dragged down past the vertical middle of \<open>Item 1\<close>.
\<close>

theorem hovered_item_reorder_witness:
  "cleanKids [Item 0, Item 1, Item 2]
   \<and> isDragging (run abc [PointerDown (mouseDown 0), PointerMove (moveTo 10 30 1010)])
   \<and> draggedElement (run abc [PointerDown (mouseDown 0), PointerMove (moveTo 10 30 1010)])
       = Some (Item 0)
   \<and> placeholder (run abc [PointerDown (mouseDown 0), PointerMove (moveTo 10 30 1010)])
       = Some (Placeholder 2)
   \<and> children (run abc [PointerDown (mouseDown 0), PointerMove (moveTo 10 30 1010)])
       = [Item 0, Placeholder 2, Item 1, Item 2]
   \<and> getElementUnderPoint (overItem 1) = Some (Item 1)
   \<and> \<not> beforeSide (overItem 1) 10 80 (Item 1)
   \<and> children (updateDragPosition (overItem 1) 10 80
         (run abc [PointerDown (mouseDown 0), PointerMove (moveTo 10 30 1010)]))
       = [Item 1, Item 0, Placeholder 2, Item 2]
   \<and> nextSibling (Item 0) (children (updateDragPosition (overItem 1) 10 80
         (run abc [PointerDown (mouseDown 0), PointerMove (moveTo 10 30 1010)])))
       = Some (Placeholder 2)
   \<and> nextSibling (Item 1) (children (updateDragPosition (overItem 1) 10 80
         (run abc [PointerDown (mouseDown 0), PointerMove (moveTo 10 30 1010)])))
       = Some (Item 0)"
proof -
  let ?s = "run abc [PointerDown (mouseDown 0), PointerMove (moveTo 10 30 1010)]"
  have c: "cleanKids [Item 0, Item 1, Item 2]"
    by (simp add: cleanKids_def)
  have r: "?s = run (init [Item 0, Item 1, Item 2] (\<lambda>n. noStyle) (\<lambda>n. False) False False)
      [PointerDown (mouseDown 0), PointerMove (moveTo 10 30 1010)]"
    by (simp add: abc_def)
  have dr: "isDragging ?s" by code_simp
  have de: "draggedElement ?s = Some (Item 0)" by code_simp
  have pl: "placeholder ?s = Some (Placeholder 2)" by code_simp
  have ch: "children ?s = [Item 0, Placeholder 2, Item 1, Item 2]" by code_simp
  have pin: "Placeholder 2 \<in> set (children ?s)" unfolding ch by simp
  have hv: "getElementUnderPoint (overItem 1) = Some (Item 1)"
    by (simp add: getElementUnderPoint_def overItem_def column_def closest_def
        isDraggableElem_def itemElem_def)
  have n1: "Item 1 \<noteq> Item 0" and n2: "Item 1 \<noteq> Placeholder 2" by simp_all
  have ih: "indexOf (Item 1) (getDraggableItems ?s) \<noteq> - 1"
    and id: "indexOf (Item 0) (getDraggableItems ?s) \<noteq> - 1"
    by (simp_all add: getDraggableItems_def ch indexOf_def)
  have nb: "\<not> beforeSide (overItem 1) 10 80 (Item 1)"
    by (simp add: beforeSide_def layoutHorizontal_def overItem_def column_def box_def)
  have res: "spec_hoverReorder (overItem 1) 10 80 (Item 0) (Placeholder 2) (Item 1)
      [Item 0, Placeholder 2, Item 1, Item 2] = [Item 1, Item 0, Placeholder 2, Item 2]"
    using nb
    by (simp add: spec_hoverReorder_def Let_def nextSibling_def dom_insertBefore_def)
  note th = hovered_item_reorder [OF c r dr de pl hv n1 n2 ih id, of 10 80]
  from th have "children (updateDragPosition (overItem 1) 10 80 ?s)
      = (if Placeholder 2 \<in> set (children ?s)
         then spec_hoverReorder (overItem 1) 10 80 (Item 0) (Placeholder 2) (Item 1) (children ?s)
         else spec_moveDragged (overItem 1) 10 80 (Item 0) (Item 1) (children ?s))"
    by blast
  then have "children (updateDragPosition (overItem 1) 10 80 ?s)
      = spec_hoverReorder (overItem 1) 10 80 (Item 0) (Placeholder 2) (Item 1) (children ?s)"
    using pin by (simp only: if_True)
  then have k: "children (updateDragPosition (overItem 1) 10 80 ?s)
      = [Item 1, Item 0, Placeholder 2, Item 2]"
    by (simp only: ch res)
  from th pin have f: "nextSibling (Item 0) (children (updateDragPosition (overItem 1) 10 80 ?s))
      = Some (Placeholder 2)"
    by blast
  from th nb have n: "nextSibling (Item 1) (children (updateDragPosition (overItem 1) 10 80 ?s))
      = Some (Item 0)"
    by blast
  from c dr de pl ch hv nb k f n show ?thesis by blast
qed

text \<open>
  The claim where the caller has taken the placeholder out of the container during the
  drag of \<open>Item 0\<close>: the update over \<open>Item 1\<close> moves \<open>Item 0\<close> behind it, and the test
  \<open>placeholder.parentElement\<close> skips the placeholder, which does not follow the dragged
  item afterwards.
\<close>

theorem detached_placeholder_counterexample:
  "isDragging (run abc [PointerDown (mouseDown 0), PointerMove (moveTo 10 30 1010),
       ExternalRemove (Placeholder 2)])
   \<and> draggedElement (run abc [PointerDown (mouseDown 0), PointerMove (moveTo 10 30 1010),
       ExternalRemove (Placeholder 2)]) = Some (Item 0)
   \<and> placeholder (run abc [PointerDown (mouseDown 0), PointerMove (moveTo 10 30 1010),
       ExternalRemove (Placeholder 2)]) = Some (Placeholder 2)
   \<and> getDraggableItems (run abc [PointerDown (mouseDown 0), PointerMove (moveTo 10 30 1010),
       ExternalRemove (Placeholder 2)]) = [Item 0, Item 1, Item 2]
   \<and> getElementUnderPoint (overItem 1) = Some (Item 1)
   \<and> \<not> beforeSide (overItem 1) 10 80 (Item 1)
   \<and> children (updateDragPosition (overItem 1) 10 80
        (run abc [PointerDown (mouseDown 0), PointerMove (moveTo 10 30 1010),
           ExternalRemove (Placeholder 2)])) = [Item 1, Item 0, Item 2]
   \<and> nextSibling (Item 0) (children (updateDragPosition (overItem 1) 10 80
        (run abc [PointerDown (mouseDown 0), PointerMove (moveTo 10 30 1010),
           ExternalRemove (Placeholder 2)]))) = Some (Item 2)
   \<and> children (run abc [PointerDown (mouseDown 0), PointerMove (moveTo 10 30 1010),
        ExternalRemove (Placeholder 2), PointerMove (moveTo 10 80 1020),
        AnimationFrame (overItem 1)]) = [Item 1, Item 0, Item 2]"
proof -
  let ?s = "run abc [PointerDown (mouseDown 0), PointerMove (moveTo 10 30 1010),
       ExternalRemove (Placeholder 2)]"
  have 1: "isDragging ?s" by code_simp
  have 2: "draggedElement ?s = Some (Item 0)" by code_simp
  have 3: "placeholder ?s = Some (Placeholder 2)" by code_simp
  have 4: "getDraggableItems ?s = [Item 0, Item 1, Item 2]" by code_simp
  have 5: "getElementUnderPoint (overItem 1) = Some (Item 1)"
    by (simp add: getElementUnderPoint_def overItem_def column_def closest_def
        isDraggableElem_def itemElem_def)
  have 6: "\<not> beforeSide (overItem 1) 10 80 (Item 1)"
    by (simp add: beforeSide_def layoutHorizontal_def overItem_def column_def box_def)
  have 7: "children (updateDragPosition (overItem 1) 10 80 ?s) = [Item 1, Item 0, Item 2]"
    by code_simp
  have 8: "nextSibling (Item 0) (children (updateDragPosition (overItem 1) 10 80 ?s))
      = Some (Item 2)"
    unfolding 7 by (simp add: nextSibling_def)
  have 9: "children (run abc [PointerDown (mouseDown 0), PointerMove (moveTo 10 30 1010),
        ExternalRemove (Placeholder 2), PointerMove (moveTo 10 80 1020),
        AnimationFrame (overItem 1)]) = [Item 1, Item 0, Item 2]"
    by code_simp
  from 1 2 3 4 5 6 7 8 9 show ?thesis by blast
qed

subsection \<open>Reordering at the edges of the list\<close>

lemma filter_insertAt_first:
  "filter P ds = a # rest \<Longrightarrow> P n \<Longrightarrow> filter P (insertAt n a ds) = n # a # rest"
proof (induction ds)
  case Nil
  then show ?case by simp
next
  case (Cons c ds)
  show ?case
  proof (cases "c = a")
    case True
    then show ?thesis using Cons.prems by simp
  next
    case False
    then have "\<not> P c" using Cons.prems(1) by (auto split: if_splits)
    then show ?thesis using Cons False by simp
  qed
qed

text \<open>\<open>insertBefore(d, firstItem)\<close> makes \<open>d\<close> the first draggable child.\<close>

lemma filter_toFront:
  assumes "distinct cs" and "hasDraggable d" and "filter hasDraggable cs \<noteq> []"
  shows "filter hasDraggable (dom_insertBefore d (Some (hd (filter hasDraggable cs))) cs)
     = d # removeAll d (filter hasDraggable cs)"
proof -
  from assms(3) obtain a rest where items: "filter hasDraggable cs = a # rest"
    by (cases "filter hasDraggable cs") auto
  have di: "distinct (a # rest)" using assms(1) items distinct_filter [of cs hasDraggable] by simp
  have ain: "a \<in> set cs" using items by (metis filter_is_subset list.set_intros(1) subsetD)
  show ?thesis
  proof (cases "a = d")
    case True
    then have "removeAll d (a # rest) = rest" using di by simp
    then show ?thesis using True items by (simp add: dom_insertBefore_def)
  next
    case False
    have "filter hasDraggable (removeAll d cs) = a # removeAll d rest"
      using items False by (simp add: filter_removeAll_commute)
    then have "filter hasDraggable (insertAt d a (removeAll d cs)) = d # a # removeAll d rest"
      using assms(2) by (rule filter_insertAt_first)
    then show ?thesis using False items ain by (simp add: dom_insertBefore_def)
  qed
qed

text \<open>\<open>appendChild(d)\<close> makes \<open>d\<close> the last draggable child.\<close>

lemma filter_toEnd:
  assumes "hasDraggable d"
  shows "filter hasDraggable (dom_appendChild d cs) = removeAll d (filter hasDraggable cs) @ [d]"
  using assms by (simp add: dom_appendChild_def filter_removeAll_commute)

lemma hd_filter_mem: "filter P cs \<noteq> [] \<Longrightarrow> hd (filter P cs) \<in> set cs"
  by (metis filter_is_subset hd_in_set subsetD)

lemma edge_toFront:
  assumes "distinct cs" and "hasDraggable d" and "\<not> hasDraggable p" and "p \<noteq> d"
    and "filter hasDraggable cs \<noteq> []"
    and "cs1 = dom_insertBefore d (Some (hd (filter hasDraggable cs))) cs"
    and "res = dom_insertBefore p (nextSibling d cs1) cs1"
  shows "filter hasDraggable res = d # removeAll d (filter hasDraggable cs)"
    and "nextSibling d res = Some p"
proof -
  have "filter hasDraggable res = filter hasDraggable cs1"
    unfolding assms(7) using assms(3) by (rule filter_dom_insertBefore_notP)
  also have "\<dots> = d # removeAll d (filter hasDraggable cs)"
    unfolding assms(6) using assms(1,2,5) by (rule filter_toFront)
  finally show "filter hasDraggable res = d # removeAll d (filter hasDraggable cs)" .
  have d1: "distinct cs1" unfolding assms(6) using assms(1) by (rule distinct_dom_insertBefore)
  have m1: "d \<in> set cs1"
    unfolding assms(6) using assms(5) by (intro dom_insertBefore_mem hd_filter_mem)
  show "nextSibling d res = Some p"
    unfolding assms(7) using d1 m1 assms(4) by (rule placeholder_follows)
qed

lemma edge_toEnd:
  assumes "hasDraggable d" and "\<not> hasDraggable p" and "p \<noteq> d"
    and "cs1 = dom_appendChild d cs"
    and "res = dom_insertBefore p (nextSibling d cs1) cs1"
  shows "filter hasDraggable res = removeAll d (filter hasDraggable cs) @ [d]"
    and "res = removeAll p (removeAll d cs) @ [d, p]"
    and "nextSibling d res = Some p"
proof -
  have "filter hasDraggable res = filter hasDraggable cs1"
    unfolding assms(5) using assms(2) by (rule filter_dom_insertBefore_notP)
  also have "\<dots> = removeAll d (filter hasDraggable cs) @ [d]"
    unfolding assms(4) using assms(1) by (rule filter_toEnd)
  finally show "filter hasDraggable res = removeAll d (filter hasDraggable cs) @ [d]" .
  have c1: "cs1 = removeAll d cs @ [d]" using assms(4) by (simp add: dom_appendChild_def)
  have "d \<notin> set (removeAll d cs)" by simp
  then have ns: "nextSibling d cs1 = None"
    unfolding c1 using nextSibling_at [of d "removeAll d cs" "[]"] by simp
  show r: "res = removeAll p (removeAll d cs) @ [d, p]"
    unfolding assms(5) ns using assms(3) by (simp add: dom_insertBefore_def c1)
  have "d \<notin> set (removeAll p (removeAll d cs))" by simp
  then show "nextSibling d res = Some p"
    unfolding r using nextSibling_at [of d "removeAll p (removeAll d cs)" "[p]"] by simp
qed

lemma edgeReorder_cases:
  assumes "filter hasDraggable cs \<noteq> []"
  shows "edgeReorder f (layoutHorizontal f) x y d p cs =
     (if beyondFirst f x y (filter hasDraggable cs)
      then dom_insertBefore p
             (nextSibling d (dom_insertBefore d (Some (hd (filter hasDraggable cs))) cs))
             (dom_insertBefore d (Some (hd (filter hasDraggable cs))) cs)
      else if beyondLast f x y (filter hasDraggable cs)
      then dom_insertBefore p (nextSibling d (dom_appendChild d cs)) (dom_appendChild d cs)
      else cs)"
  using assms by (simp add: edgeReorder_def beyondFirst_def beyondLast_def Let_def)

text \<open>
  C7. The controller has reached a state with an active session on the item \<open>d\<close> with
  placeholder \<open>p\<close>; a position update finds no hovered item, and the container has
  draggable children. If the pointer is beyond the leading edge of the first of them
  (left of its left edge in a horizontal layout, above its top edge otherwise), \<open>d\<close>
  becomes the first draggable child and the others keep their order. If not, and the
  pointer is beyond the trailing edge of the last one (right of its right edge, below
  its bottom edge), \<open>d\<close> becomes the last child of the container but for \<open>p\<close>, which
  follows it. Otherwise the child list is unchanged. And when the mouse takes the item at
  index 1 of three below the last item and releases it, \<open>onDrop\<close> is called once, with
  (1, 2).
\<close>

theorem edge_reorder:
  assumes "cleanKids cs" and "s = run (init cs sty cls dis hdl) evs"
    and "isDragging s" and "draggedElement s = Some d" and "placeholder s = Some p"
    and "getElementUnderPoint f = None" and "getDraggableItems s \<noteq> []"
  shows "(beyondFirst f x y (getDraggableItems s) \<longrightarrow>
            getDraggableItems (updateDragPosition f x y s) = d # removeAll d (getDraggableItems s)
            \<and> nextSibling d (children (updateDragPosition f x y s)) = Some p)
    \<and> (\<not> beyondFirst f x y (getDraggableItems s) \<and> beyondLast f x y (getDraggableItems s) \<longrightarrow>
            getDraggableItems (updateDragPosition f x y s) = removeAll d (getDraggableItems s) @ [d]
            \<and> children (updateDragPosition f x y s)
                = removeAll p (removeAll d (children s)) @ [d, p])
    \<and> (\<not> beyondFirst f x y (getDraggableItems s) \<and> \<not> beyondLast f x y (getDraggableItems s) \<longrightarrow>
            children (updateDragPosition f x y s) = children s)
    \<and> drops (run abc [PointerDown (mouseDown 1), PointerMove (moveTo 10 80 1010),
          PointerMove (moveTo 10 300 1020), AnimationFrame column, PointerUp]) = [(1, 2)]"
proof -
  have inv: "sessionInv s"
    using assms(1,2) by (simp add: sessionInv_run sessionInv_init)
  from inv assms(3) obtain g p' d' where refs: "ghostElement s = Some g" "placeholder s = Some p'"
    "draggedElement s = Some d'" "isPlaceholder p'" "hasDraggable d'" "distinct (children s)"
    "p' \<noteq> d'"
    by (rule dragging_refs)
  with assms(4,5) have pd: "p \<noteq> d" and hd: "hasDraggable d" and pp: "isPlaceholder p" by simp_all
  have np: "\<not> hasDraggable p" using pp by (cases p) auto
  have ne: "filter hasDraggable (children s) \<noteq> []"
    using assms(7) by (simp add: getDraggableItems_def)
  have upd: "children (updateDragPosition f x y s)
      = edgeReorder f (layoutHorizontal f) x y d p (children s)"
    using refs(1) assms(4,5,6) by (simp add: updateDragPosition_def Let_def)
  note ec = edgeReorder_cases [OF ne, of f x y d p]
  note front = edge_toFront [OF refs(6) hd np pd ne refl refl]
  note tail = edge_toEnd [OF hd np pd refl refl, of "children s"]
  have 1: "getDraggableItems (updateDragPosition f x y s) = d # removeAll d (getDraggableItems s)
      \<and> nextSibling d (children (updateDragPosition f x y s)) = Some p"
    if "beyondFirst f x y (getDraggableItems s)"
    using that front by (simp add: getDraggableItems_def upd ec)
  have 2: "getDraggableItems (updateDragPosition f x y s) = removeAll d (getDraggableItems s) @ [d]
      \<and> children (updateDragPosition f x y s) = removeAll p (removeAll d (children s)) @ [d, p]"
    if "\<not> beyondFirst f x y (getDraggableItems s)" and "beyondLast f x y (getDraggableItems s)"
    using that tail(1,2) by (simp add: getDraggableItems_def upd ec)
  have 3: "children (updateDragPosition f x y s) = children s"
    if "\<not> beyondFirst f x y (getDraggableItems s)" and "\<not> beyondLast f x y (getDraggableItems s)"
    using that by (simp add: getDraggableItems_def upd ec)
  have 4: "drops (run abc [PointerDown (mouseDown 1), PointerMove (moveTo 10 80 1010),
          PointerMove (moveTo 10 300 1020), AnimationFrame column, PointerUp]) = [(1, 2)]"
    by code_simp
  from 1 2 3 4 show ?thesis by blast
qed

text \<open>\<open>Item 1\<close> of three stacked items is dragged below the last item.\<close>

theorem edge_reorder_witness:
  "cleanKids [Item 0, Item 1, Item 2]
   \<and> isDragging (run abc [PointerDown (mouseDown 1), PointerMove (moveTo 10 80 1010)])
   \<and> draggedElement (run abc [PointerDown (mouseDown 1), PointerMove (moveTo 10 80 1010)])
       = Some (Item 1)
   \<and> placeholder (run abc [PointerDown (mouseDown 1), PointerMove (moveTo 10 80 1010)])
       = Some (Placeholder 2)
   \<and> getElementUnderPoint column = None
   \<and> getDraggableItems (run abc [PointerDown (mouseDown 1), PointerMove (moveTo 10 80 1010)])
       = [Item 0, Item 1, Item 2]
   \<and> \<not> beyondFirst column 10 300 [Item 0, Item 1, Item 2]
   \<and> beyondLast column 10 300 [Item 0, Item 1, Item 2]
   \<and> getDraggableItems (updateDragPosition column 10 300
         (run abc [PointerDown (mouseDown 1), PointerMove (moveTo 10 80 1010)]))
       = [Item 0, Item 2, Item 1]
   \<and> children (updateDragPosition column 10 300
         (run abc [PointerDown (mouseDown 1), PointerMove (moveTo 10 80 1010)]))
       = [Item 0, Item 2, Item 1, Placeholder 2]"
proof -
  let ?s = "run abc [PointerDown (mouseDown 1), PointerMove (moveTo 10 80 1010)]"
  have c: "cleanKids [Item 0, Item 1, Item 2]"
    by (simp add: cleanKids_def)
  have r: "?s = run (init [Item 0, Item 1, Item 2] (\<lambda>n. noStyle) (\<lambda>n. False) False False)
      [PointerDown (mouseDown 1), PointerMove (moveTo 10 80 1010)]"
    by (simp add: abc_def)
  have dr: "isDragging ?s" by code_simp
  have de: "draggedElement ?s = Some (Item 1)" by code_simp
  have pl: "placeholder ?s = Some (Placeholder 2)" by code_simp
  have ch: "children ?s = [Item 0, Item 1, Placeholder 2, Item 2]" by code_simp
  have it: "getDraggableItems ?s = [Item 0, Item 1, Item 2]"
    unfolding getDraggableItems_def ch by simp
  then have ne: "getDraggableItems ?s \<noteq> []" by simp
  have hv: "getElementUnderPoint column = None"
    by (simp add: getElementUnderPoint_def column_def closest_def)
  have nf: "\<not> beyondFirst column 10 300 [Item 0, Item 1, Item 2]"
    by (simp add: beyondFirst_def layoutHorizontal_def column_def box_def)
  have bl: "beyondLast column 10 300 [Item 0, Item 1, Item 2]"
    by (simp add: beyondLast_def layoutHorizontal_def column_def box_def r_bottom_def)
  note th = edge_reorder [OF c r dr de pl hv ne, of 10 300]
  from th nf bl have "getDraggableItems (updateDragPosition column 10 300 ?s)
        = removeAll (Item 1) (getDraggableItems ?s) @ [Item 1]
      \<and> children (updateDragPosition column 10 300 ?s)
        = removeAll (Placeholder 2) (removeAll (Item 1) (children ?s)) @ [Item 1, Placeholder 2]"
    unfolding it by blast
  then have k: "getDraggableItems (updateDragPosition column 10 300 ?s) = [Item 0, Item 2, Item 1]"
    and l: "children (updateDragPosition column 10 300 ?s)
        = [Item 0, Item 2, Item 1, Placeholder 2]"
    unfolding it ch by simp_all
  from c dr de pl hv it nf bl k l show ?thesis by blast
qed

end
